theory Spec2Isabelle
  imports Main "HOL-Library.Multiset" "HOL-Library.Sublist"
begin

section \<open>The two-pointer algorithms of \<open>two_pointer.py\<close>\<close>

text \<open>
  Each function of the module is embedded as a HOL function that computes the same
  result. Exceptions are values of a sum type, the in-place mutation of a list is passed
  along as state, and the loops over linked lists, which may not return, are partial
  functions. The first part holds the embedding and the vocabulary of the properties;
  the second part holds the proofs.
\<close>

subsection \<open>Exceptions and list indexing\<close>

text \<open>
  The exceptions the modelled code can raise: reading \<open>.next\<close> of \<open>None\<close>, indexing a
  list out of range, removing a missing element from a set. A result \<open>Inl e\<close> is the
  raised exception, \<open>Inr v\<close> the returned value.
\<close>

datatype error = AttributeError | IndexError | KeyError

text \<open>
  Python's \<open>xs[i]\<close>: a negative index counts from the end, and an index outside the
  list raises \<open>IndexError\<close>. \<open>py_store\<close> is the assignment \<open>xs[i] = v\<close>.
\<close>

definition py_index :: "'a list \<Rightarrow> int \<Rightarrow> error + 'a" where
  "py_index xs i =
     (let n = int (length xs); k = (if i < 0 then i + n else i)
      in if 0 \<le> k \<and> k < n then Inr (xs ! nat k) else Inl IndexError)"

definition py_store :: "'a list \<Rightarrow> int \<Rightarrow> 'a \<Rightarrow> error + 'a list" where
  "py_store xs i v =
     (let n = int (length xs); k = (if i < 0 then i + n else i)
      in if 0 \<le> k \<and> k < n then Inr (xs[nat k := v]) else Inl IndexError)"

subsection \<open>Pair sum on a sorted list: \<open>two_sum_sorted\<close>\<close>

text \<open>
  The \<open>while left < right\<close> loop of \<open>two_sum_sorted\<close>. The cursors are Python integers
  (\<open>right\<close> starts at \<open>len(arr) - 1\<close>, which is \<open>-1\<close> for the empty list). The
  not-found result \<open>None\<close> of the source is \<open>Inr None\<close>. The source reads
  \<open>arr[left]\<close> and \<open>arr[right]\<close> again for the returned pair; the model returns the
  values it has read for the sum.
\<close>

function two_sum_loop :: "int list \<Rightarrow> int \<Rightarrow> int \<Rightarrow> int \<Rightarrow> error + (int \<times> int) option" where
  "two_sum_loop arr target left right =
     (if left < right then
        (case py_index arr left of
           Inl e \<Rightarrow> Inl e
         | Inr a \<Rightarrow>
             (case py_index arr right of
                Inl e \<Rightarrow> Inl e
              | Inr b \<Rightarrow>
                  (let current_sum = a + b
                   in if current_sum = target then Inr (Some (a, b))
                      else if current_sum < target
                           then two_sum_loop arr target (left + 1) right
                           else two_sum_loop arr target left (right - 1))))
      else Inr None)"
  by pat_completeness auto
termination
  by (relation "measure (\<lambda>(arr, target, left, right). nat (right - left))") auto

declare two_sum_loop.simps [simp del]

definition two_sum_sorted :: "int list \<Rightarrow> int \<Rightarrow> error + (int \<times> int) option" where
  "two_sum_sorted arr target = two_sum_loop arr target 0 (int (length arr) - 1)"

subsection \<open>In-place deduplication: \<open>remove_duplicates\<close>\<close>

text \<open>
  The loop \<open>for i in range(1, len(arr))\<close> runs over the list of indices, which is fixed
  when the loop starts. The list is mutated in place, so the model passes it along and
  returns it together with \<open>write_index\<close>. The source reads \<open>arr[i]\<close> a second time for
  the assignment, with no write in between; the model reuses the first read.
\<close>

fun remove_duplicates_for :: "nat list \<Rightarrow> int list \<Rightarrow> nat \<Rightarrow> error + (int list \<times> nat)" where
  "remove_duplicates_for [] arr write_index = Inr (arr, write_index)"
| "remove_duplicates_for (i # rest) arr write_index =
     (case py_index arr (int i) of
        Inl e \<Rightarrow> Inl e
      | Inr x \<Rightarrow>
          (case py_index arr (int i - 1) of
             Inl e \<Rightarrow> Inl e
           | Inr y \<Rightarrow>
               if x \<noteq> y then
                 (case py_store arr (int write_index) x of
                    Inl e \<Rightarrow> Inl e
                  | Inr arr' \<Rightarrow> remove_duplicates_for rest arr' (write_index + 1))
               else remove_duplicates_for rest arr write_index))"

definition remove_duplicates :: "int list \<Rightarrow> error + (int list \<times> nat)" where
  "remove_duplicates arr =
     (if arr = [] then Inr (arr, 0)
      else remove_duplicates_for [1..<length arr] arr 1)"

subsection \<open>Reversal and largest container: \<open>reverse_string\<close>, \<open>max_area\<close>\<close>

text \<open>
  \<open>reverse_string\<close> turns the string into a list of characters, swaps in place and joins
  the list again; in the model a string is its list of characters. The tuple assignment
  reads \<open>s[right]\<close> and \<open>s[left]\<close> first and then stores to \<open>s[left]\<close> and \<open>s[right]\<close>.
\<close>

function reverse_loop :: "'a list \<Rightarrow> int \<Rightarrow> int \<Rightarrow> error + 'a list" where
  "reverse_loop s left right =
     (if left < right then
        (case py_index s right of
           Inl e \<Rightarrow> Inl e
         | Inr b \<Rightarrow>
             (case py_index s left of
                Inl e \<Rightarrow> Inl e
              | Inr a \<Rightarrow>
                  (case py_store s left b of
                     Inl e \<Rightarrow> Inl e
                   | Inr s1 \<Rightarrow>
                       (case py_store s1 right a of
                          Inl e \<Rightarrow> Inl e
                        | Inr s2 \<Rightarrow> reverse_loop s2 (left + 1) (right - 1)))))
      else Inr s)"
  by pat_completeness auto
termination
  by (relation "measure (\<lambda>(s, left, right). nat (right - left))") auto

declare reverse_loop.simps [simp del]

definition reverse_string :: "'a list \<Rightarrow> error + 'a list" where
  "reverse_string s = reverse_loop s 0 (int (length s) - 1)"

text \<open>
  \<open>max_area\<close>: the source reads \<open>height[left]\<close> and \<open>height[right]\<close> once for the area and
  once more for the comparison, with no write in between; the model reads them once.
\<close>

function max_area_loop :: "int list \<Rightarrow> int \<Rightarrow> int \<Rightarrow> int \<Rightarrow> error + int" where
  "max_area_loop height left right max_area =
     (if left < right then
        (let width = right - left
         in case py_index height left of
              Inl e \<Rightarrow> Inl e
            | Inr hl \<Rightarrow>
                (case py_index height right of
                   Inl e \<Rightarrow> Inl e
                 | Inr hr \<Rightarrow>
                     (let current_area = min hl hr * width;
                          max_area' = max max_area current_area
                      in if hl < hr
                         then max_area_loop height (left + 1) right max_area'
                         else max_area_loop height left (right - 1) max_area')))
      else Inr max_area)"
  by pat_completeness auto
termination
  by (relation "measure (\<lambda>(height, left, right, max_area). nat (right - left))") auto

declare max_area_loop.simps [simp del]

definition max_area :: "int list \<Rightarrow> error + int" where
  "max_area height = max_area_loop height 0 (int (length height) - 1) 0"

subsection \<open>Sliding window: \<open>length_of_longest_substring\<close>\<close>

text \<open>
  A string is its sequence of characters; the algorithm only compares them, so the
  model takes a list over any type. \<open>shrink_window\<close> is the inner \<open>while\<close> loop:
  \<open>char_set.remove\<close> raises \<open>KeyError\<close> for a missing element, \<open>s[left]\<close> raises
  \<open>IndexError\<close> past the end. \<open>longest_for\<close> is the loop \<open>for right in range(len(s))\<close>
  over its list of indices.
\<close>

function shrink_window ::
  "'a list \<Rightarrow> nat \<Rightarrow> 'a set \<Rightarrow> nat \<Rightarrow> error + ('a set \<times> nat)" where
  "shrink_window s right char_set left =
     (case py_index s (int right) of
        Inl e \<Rightarrow> Inl e
      | Inr c \<Rightarrow>
          if c \<in> char_set then
            (case py_index s (int left) of
               Inl e \<Rightarrow> Inl e
             | Inr d \<Rightarrow>
                 if d \<in> char_set
                 then shrink_window s right (char_set - {d}) (left + 1)
                 else Inl KeyError)
          else Inr (char_set, left))"
  by pat_completeness auto
termination
  by (relation "measure (\<lambda>(s, right, char_set, left). length s - left)")
     (auto simp: py_index_def split: if_splits)

declare shrink_window.simps [simp del]

fun longest_for :: "nat list \<Rightarrow> 'a list \<Rightarrow> 'a set \<Rightarrow> nat \<Rightarrow> int \<Rightarrow> error + int" where
  "longest_for [] s char_set left max_length = Inr max_length"
| "longest_for (right # rest) s char_set left max_length =
     (case shrink_window s right char_set left of
        Inl e \<Rightarrow> Inl e
      | Inr (char_set', left') \<Rightarrow>
          (case py_index s (int right) of
             Inl e \<Rightarrow> Inl e
           | Inr c \<Rightarrow>
               longest_for rest s (insert c char_set') left'
                 (max max_length (int right - int left' + 1))))"

definition length_of_longest_substring :: "'a list \<Rightarrow> error + int" where
  "length_of_longest_substring s = longest_for [0..<length s] s {} 0 0"

text \<open>
  The vocabulary of the property: \<open>slice s i j\<close> is \<open>s[i:j]\<close>, and \<open>longest_distinct s\<close>
  is the greatest length of a contiguous substring of \<open>s\<close> with pairwise distinct
  elements.
\<close>

definition slice :: "'a list \<Rightarrow> nat \<Rightarrow> nat \<Rightarrow> 'a list" where
  "slice s i j = take (j - i) (drop i s)"

definition longest_distinct :: "'a list \<Rightarrow> nat" where
  "longest_distinct s = Max (length ` {w. sublist w s \<and> distinct w})"

subsection \<open>Merging: \<open>merge_sorted_arrays\<close>\<close>

text \<open>
  The loop of \<open>merge_sorted_arrays\<close> keeps two cursors \<open>i\<close>, \<open>j\<close> and the output built so
  far. Both reads are guarded by the loop condition, so no index is out of range.
  The comparison is the strict \<open>arr1[i] < arr2[j]\<close>; every other case takes from \<open>arr2\<close>.
\<close>

function merge_loop ::
  "'a::linorder list \<Rightarrow> 'a list \<Rightarrow> nat \<Rightarrow> nat \<Rightarrow> 'a list \<Rightarrow> nat \<times> nat \<times> 'a list" where
  "merge_loop arr1 arr2 i j merged =
     (if i < length arr1 \<and> j < length arr2 then
        (if arr1 ! i < arr2 ! j
         then merge_loop arr1 arr2 (i + 1) j (merged @ [arr1 ! i])
         else merge_loop arr1 arr2 i (j + 1) (merged @ [arr2 ! j]))
      else (i, j, merged))"
  by pat_completeness auto
termination
  by (relation "measure (\<lambda>(arr1, arr2, i, j, merged). (length arr1 - i) + (length arr2 - j))")
     auto

declare merge_loop.simps [simp del]

text \<open>After the loop the two slices \<open>arr1[i:]\<close> and \<open>arr2[j:]\<close> are appended.\<close>

definition merge_sorted_arrays :: "'a::linorder list \<Rightarrow> 'a list \<Rightarrow> 'a list" where
  "merge_sorted_arrays arr1 arr2 =
     (case merge_loop arr1 arr2 0 0 [] of
        (i, j, merged) \<Rightarrow> merged @ drop i arr1 @ drop j arr2)"

text \<open>
  A list-recursive reading of the same loop, used only to reason about it: the cursors
  become the remaining suffixes.
\<close>

fun merge_suffixes :: "'a::linorder list \<Rightarrow> 'a list \<Rightarrow> 'a list" where
  "merge_suffixes (x # xs) (y # ys) =
     (if x < y then x # merge_suffixes xs (y # ys) else y # merge_suffixes (x # xs) ys)"
| "merge_suffixes xs [] = xs"
| "merge_suffixes [] ys = ys"

subsection \<open>Linked lists: \<open>has_cycle\<close>, \<open>find_middle\<close>, \<open>detect_cycle_start\<close>\<close>

text \<open>
  A \<open>ListNode\<close> object has the attributes \<open>val\<close> and \<open>next\<close> (here \<open>nxt\<close>). Objects live
  in a store that maps each object identity of type \<open>'a\<close> to its attributes; a reference
  is \<open>Some a\<close> or \<open>None\<close>. Every identity denotes an object, as every non-\<open>None\<close>
  reference does in Python. Equality of references is identity of objects.
\<close>

record 'a ListNode =
  val :: int
  nxt :: "'a option"

type_synonym 'a heap = "'a \<Rightarrow> 'a ListNode"

text \<open>
  The loops may run forever on some stores, so each is a partial function into
  \<open>option\<close>: the value \<open>None\<close> means that the loop does not return. The guard
  \<open>while fast and fast.next\<close> is the first two case distinctions; \<open>slow.next\<close> raises
  \<open>AttributeError\<close> when \<open>slow\<close> is \<open>None\<close>.
\<close>

partial_function (option) has_cycle_loop ::
  "'a heap \<Rightarrow> 'a option \<Rightarrow> 'a option \<Rightarrow> (error + bool) option" where
  "has_cycle_loop h slow fast =
     (case fast of
        None \<Rightarrow> Some (Inr False)
      | Some f \<Rightarrow>
          (case nxt (h f) of
             None \<Rightarrow> Some (Inr False)
           | Some f1 \<Rightarrow>
               (case slow of
                  None \<Rightarrow> Some (Inl AttributeError)
                | Some s \<Rightarrow>
                    (let slow' = nxt (h s); fast' = nxt (h f1)
                     in if slow' = fast' then Some (Inr True)
                        else has_cycle_loop h slow' fast'))))"

definition has_cycle :: "'a heap \<Rightarrow> 'a option \<Rightarrow> (error + bool) option" where
  "has_cycle h head = has_cycle_loop h head head"


partial_function (option) find_middle_loop ::
  "'a heap \<Rightarrow> 'a option \<Rightarrow> 'a option \<Rightarrow> (error + 'a option) option" where
  "find_middle_loop h slow fast =
     (case fast of
        None \<Rightarrow> Some (Inr slow)
      | Some f \<Rightarrow>
          (case nxt (h f) of
             None \<Rightarrow> Some (Inr slow)
           | Some f1 \<Rightarrow>
               (case slow of
                  None \<Rightarrow> Some (Inl AttributeError)
                | Some s \<Rightarrow> find_middle_loop h (nxt (h s)) (nxt (h f1)))))"

definition find_middle :: "'a heap \<Rightarrow> 'a option \<Rightarrow> (error + 'a option) option" where
  "find_middle h head = find_middle_loop h head head"

text \<open>
  The first loop of \<open>detect_cycle_start\<close>: \<open>Inr (Some slow)\<close> is the \<open>break\<close> with the
  value of \<open>slow\<close>, \<open>Inr None\<close> the \<open>else\<close> branch of the loop (\<open>return None\<close>).
\<close>

partial_function (option) detect_loop ::
  "'a heap \<Rightarrow> 'a option \<Rightarrow> 'a option \<Rightarrow> (error + 'a option option) option" where
  "detect_loop h slow fast =
     (case fast of
        None \<Rightarrow> Some (Inr None)
      | Some f \<Rightarrow>
          (case nxt (h f) of
             None \<Rightarrow> Some (Inr None)
           | Some f1 \<Rightarrow>
               (case slow of
                  None \<Rightarrow> Some (Inl AttributeError)
                | Some s \<Rightarrow>
                    (let slow' = nxt (h s); fast' = nxt (h f1)
                     in if slow' = fast' then Some (Inr (Some slow'))
                        else detect_loop h slow' fast'))))"

text \<open>The second loop, \<open>while start != slow\<close>.\<close>

partial_function (option) start_loop ::
  "'a heap \<Rightarrow> 'a option \<Rightarrow> 'a option \<Rightarrow> (error + 'a option) option" where
  "start_loop h start slow =
     (if start \<noteq> slow then
        (case start of
           None \<Rightarrow> Some (Inl AttributeError)
         | Some a \<Rightarrow>
             (case slow of
                None \<Rightarrow> Some (Inl AttributeError)
              | Some s \<Rightarrow> start_loop h (nxt (h a)) (nxt (h s))))
      else Some (Inr start))"

definition detect_cycle_start :: "'a heap \<Rightarrow> 'a option \<Rightarrow> (error + 'a option) option" where
  "detect_cycle_start h head =
     (case detect_loop h head head of
        None \<Rightarrow> None
      | Some (Inl e) \<Rightarrow> Some (Inl e)
      | Some (Inr None) \<Rightarrow> Some (Inr None)
      | Some (Inr (Some slow)) \<Rightarrow> start_loop h head slow)"

text \<open>
  The lists built by the unit tests: \<open>3 \<rightarrow> 2 \<rightarrow> 0 \<rightarrow> -4\<close> with the last node linked back to
  the second, \<open>1 \<rightarrow> 2\<close>, \<open>1 \<rightarrow> 2 \<rightarrow> 3 \<rightarrow> 4 \<rightarrow> 5\<close> and \<open>1 \<rightarrow> 2 \<rightarrow> 3 \<rightarrow> 4\<close>; and a single
  node linked to itself.
\<close>

datatype node_id = N1 | N2 | N3 | N4 | N5

fun cycle_list :: "node_id heap" where
  "cycle_list N1 = \<lparr>val = 3, nxt = Some N2\<rparr>"
| "cycle_list N2 = \<lparr>val = 2, nxt = Some N3\<rparr>"
| "cycle_list N3 = \<lparr>val = 0, nxt = Some N4\<rparr>"
| "cycle_list N4 = \<lparr>val = -4, nxt = Some N2\<rparr>"
| "cycle_list N5 = \<lparr>val = 0, nxt = None\<rparr>"

fun two_list :: "node_id heap" where
  "two_list N1 = \<lparr>val = 1, nxt = Some N2\<rparr>"
| "two_list n = \<lparr>val = 2, nxt = None\<rparr>"

fun five_list :: "node_id heap" where
  "five_list N1 = \<lparr>val = 1, nxt = Some N2\<rparr>"
| "five_list N2 = \<lparr>val = 2, nxt = Some N3\<rparr>"
| "five_list N3 = \<lparr>val = 3, nxt = Some N4\<rparr>"
| "five_list N4 = \<lparr>val = 4, nxt = Some N5\<rparr>"
| "five_list N5 = \<lparr>val = 5, nxt = None\<rparr>"

fun four_list :: "node_id heap" where
  "four_list N1 = \<lparr>val = 1, nxt = Some N2\<rparr>"
| "four_list N2 = \<lparr>val = 2, nxt = Some N3\<rparr>"
| "four_list N3 = \<lparr>val = 3, nxt = Some N4\<rparr>"
| "four_list n = \<lparr>val = 4, nxt = None\<rparr>"

definition self_loop :: "unit heap" where
  "self_loop = (\<lambda>a. \<lparr>val = 1, nxt = Some ()\<rparr>)"

subsection \<open>Paths through the \<open>next\<close> relation\<close>

text \<open>
  \<open>walk h k r\<close> follows \<open>k\<close> links from the reference \<open>r\<close>; it is \<open>None\<close> once an absent
  link has been reached. \<open>reach\<close> is the set of nodes of the structure that starts at
  \<open>head\<close>. A node is on a cycle when a positive number of links leads back to it, and
  the entry of the cycle is the first such node on the way from \<open>head\<close>.
\<close>

definition follow :: "'a heap \<Rightarrow> 'a option \<Rightarrow> 'a option" where
  "follow h r = (case r of None \<Rightarrow> None | Some a \<Rightarrow> nxt (h a))"

primrec walk :: "'a heap \<Rightarrow> nat \<Rightarrow> 'a option \<Rightarrow> 'a option" where
  "walk h 0 r = r"
| "walk h (Suc k) r = follow h (walk h k r)"

definition reach :: "'a heap \<Rightarrow> 'a option \<Rightarrow> 'a set" where
  "reach h head = {a. \<exists>k. walk h k head = Some a}"

definition on_cycle :: "'a heap \<Rightarrow> 'a \<Rightarrow> bool" where
  "on_cycle h a = (\<exists>m>0. walk h m (Some a) = Some a)"

definition cyclic :: "'a heap \<Rightarrow> 'a option \<Rightarrow> bool" where
  "cyclic h head = (\<exists>a k. walk h k head = Some a \<and> on_cycle h a)"

definition cycle_entry :: "'a heap \<Rightarrow> 'a option \<Rightarrow> 'a \<Rightarrow> bool" where
  "cycle_entry h head a =
     (\<exists>k. walk h k head = Some a \<and> on_cycle h a \<and>
          (\<forall>i<k. \<forall>b. walk h i head = Some b \<longrightarrow> \<not> on_cycle h b))"

text \<open>A structure is endless from \<open>head\<close> when following links never reaches an absent link.\<close>

definition endless :: "'a heap \<Rightarrow> 'a option \<Rightarrow> bool" where
  "endless h head = (\<forall>k. walk h k head \<noteq> None)"

text \<open>
  Starting from \<open>(head, head)\<close>, after \<open>i\<close> rounds the cursors are \<open>walk h i head\<close> and
  \<open>walk h (2 * i) head\<close>. Round \<open>i\<close> is passed when the guard holds and the cursors differ
  after the move.
\<close>

definition passes :: "'a heap \<Rightarrow> 'a option \<Rightarrow> nat \<Rightarrow> bool" where
  "passes h head i =
     (walk h (2 * i + 1) head \<noteq> None \<and> walk h (i + 1) head \<noteq> walk h (2 * i + 2) head)"

section \<open>Properties\<close>

subsection \<open>Indexing inside the list\<close>

lemma py_index_nat [simp]: "i < length xs \<Longrightarrow> py_index xs (int i) = Inr (xs ! i)"
  by (simp add: py_index_def)

lemma py_index_in_range:
  "0 \<le> i \<Longrightarrow> i < int (length xs) \<Longrightarrow> py_index xs i = Inr (xs ! nat i)"
  by (simp add: py_index_def)

lemma py_store_in_range:
  "0 \<le> i \<Longrightarrow> i < int (length xs) \<Longrightarrow> py_store xs i v = Inr (xs[nat i := v])"
  by (simp add: py_store_def)

subsection \<open>Correctness of \<open>two_sum_sorted\<close>\<close>

lemma two_sum_loop_sound:
  "0 \<le> left \<Longrightarrow> right < int (length arr) \<Longrightarrow>
   two_sum_loop arr target left right = Inr None \<or>
   (\<exists>i j. i < j \<and> j < length arr \<and> arr ! i + arr ! j = target \<and>
          two_sum_loop arr target left right = Inr (Some (arr ! i, arr ! j)))"
proof (induction arr target left right rule: two_sum_loop.induct)
  case (1 arr target left right)
  show ?case
  proof (cases "left < right")
    case False
    then show ?thesis
      by (subst two_sum_loop.simps) simp
  next
    case True
    with "1.prems" have l: "py_index arr left = Inr (arr ! nat left)"
      and r: "py_index arr right = Inr (arr ! nat right)"
      by (simp_all add: py_index_in_range)
    let ?sum = "arr ! nat left + arr ! nat right"
    consider "?sum = target" | "?sum < target" | "target < ?sum"
      by linarith
    then show ?thesis
    proof cases
      case 1
      have "nat left < nat right \<and> nat right < length arr"
        using True "1.prems" by linarith
      moreover have "two_sum_loop arr target left right =
          Inr (Some (arr ! nat left, arr ! nat right))"
        using True 1 by (subst two_sum_loop.simps) (simp add: l r)
      ultimately show ?thesis
        using 1 by blast
    next
      case 2
      then have "two_sum_loop arr target left right = two_sum_loop arr target (left + 1) right"
        using True by (subst two_sum_loop.simps) (simp add: l r)
      moreover have "two_sum_loop arr target (left + 1) right = Inr None \<or>
         (\<exists>i j. i < j \<and> j < length arr \<and> arr ! i + arr ! j = target \<and>
          two_sum_loop arr target (left + 1) right = Inr (Some (arr ! i, arr ! j)))"
        using "1.IH"(1) [OF True l r refl] 2 "1.prems" by simp
      ultimately show ?thesis by simp
    next
      case 3
      then have "two_sum_loop arr target left right = two_sum_loop arr target left (right - 1)"
        using True by (subst two_sum_loop.simps) (simp add: l r)
      moreover have "two_sum_loop arr target left (right - 1) = Inr None \<or>
         (\<exists>i j. i < j \<and> j < length arr \<and> arr ! i + arr ! j = target \<and>
          two_sum_loop arr target left (right - 1) = Inr (Some (arr ! i, arr ! j)))"
        using "1.IH"(2) [OF True l r refl] 3 "1.prems" by simp
      ultimately show ?thesis by simp
    qed
  qed
qed

lemma two_sum_loop_complete:
  "sorted arr \<Longrightarrow> 0 \<le> left \<Longrightarrow> right < int (length arr) \<Longrightarrow>
   \<exists>i j. left \<le> int i \<and> i < j \<and> int j \<le> right \<and> arr ! i + arr ! j = target \<Longrightarrow>
   two_sum_loop arr target left right \<noteq> Inr None"
proof (induction arr target left right rule: two_sum_loop.induct)
  case (1 arr target left right)
  from "1.prems"(4) obtain i j
    where ij: "left \<le> int i" "i < j" "int j \<le> right" "arr ! i + arr ! j = target"
    by blast
  then have True: "left < right" by linarith
  with "1.prems" have l: "py_index arr left = Inr (arr ! nat left)"
    and r: "py_index arr right = Inr (arr ! nat right)"
    by (simp_all add: py_index_in_range)
  have jr: "arr ! j \<le> arr ! nat right"
    using \<open>sorted arr\<close> ij "1.prems"(3) by (intro sorted_nth_mono) linarith+
  have li: "arr ! nat left \<le> arr ! i"
    using \<open>sorted arr\<close> ij "1.prems"(2,3) by (intro sorted_nth_mono) linarith+
  let ?sum = "arr ! nat left + arr ! nat right"
  consider "?sum = target" | "?sum < target" | "target < ?sum"
    by linarith
  then show ?case
  proof cases
    case 1
    then show ?thesis
      using True by (subst two_sum_loop.simps) (simp add: l r)
  next
    case 2
    have "int i \<noteq> left"
    proof
      assume "int i = left"
      then have "arr ! nat left = arr ! i" by auto
      with jr ij(4) 2 show False by linarith
    qed
    with ij have "\<exists>i j. left + 1 \<le> int i \<and> i < j \<and> int j \<le> right \<and> arr ! i + arr ! j = target"
      by (intro exI [of _ i] exI [of _ j]) linarith
    then have "two_sum_loop arr target (left + 1) right \<noteq> Inr None"
      using "1.IH"(1) [OF True l r refl] 2 "1.prems" by simp
    moreover have "two_sum_loop arr target left right = two_sum_loop arr target (left + 1) right"
      using True 2 by (subst two_sum_loop.simps) (simp add: l r)
    ultimately show ?thesis by simp
  next
    case 3
    have "int j \<noteq> right"
    proof
      assume "int j = right"
      then have "arr ! nat right = arr ! j" by auto
      with li ij(4) 3 show False by linarith
    qed
    with ij have "\<exists>i j. left \<le> int i \<and> i < j \<and> int j \<le> right - 1 \<and> arr ! i + arr ! j = target"
      by (intro exI [of _ i] exI [of _ j]) linarith
    then have "two_sum_loop arr target left (right - 1) \<noteq> Inr None"
      using "1.IH"(2) [OF True l r refl] 3 "1.prems" by simp
    moreover have "two_sum_loop arr target left right = two_sum_loop arr target left (right - 1)"
      using True 3 by (subst two_sum_loop.simps) (simp add: l r)
    ultimately show ?thesis by simp
  qed
qed

text \<open>
  Claim C4. For a list sorted ascending and any target: if two indices \<open>i < j\<close> with
  \<open>arr[i] + arr[j] = target\<close> exist, \<open>two_sum_sorted\<close> returns the values at two distinct
  indices whose sum is the target; if none exist, it returns \<open>None\<close>.
\<close>

theorem two_sum_sorted_finds_pair:
  assumes "sorted arr"
  shows "if \<exists>i j. i < j \<and> j < length arr \<and> arr ! i + arr ! j = target
         then \<exists>i j. i < j \<and> j < length arr \<and> arr ! i + arr ! j = target \<and>
                two_sum_sorted arr target = Inr (Some (arr ! i, arr ! j))
         else two_sum_sorted arr target = Inr None"
proof -
  have sound: "two_sum_sorted arr target = Inr None \<or>
     (\<exists>i j. i < j \<and> j < length arr \<and> arr ! i + arr ! j = target \<and>
          two_sum_sorted arr target = Inr (Some (arr ! i, arr ! j)))"
    unfolding two_sum_sorted_def by (rule two_sum_loop_sound) simp_all
  show ?thesis
  proof (cases "\<exists>i j. i < j \<and> j < length arr \<and> arr ! i + arr ! j = target")
    case True
    then obtain i j where "i < j" "j < length arr" "arr ! i + arr ! j = target"
      by blast
    then have "\<exists>i j. 0 \<le> int i \<and> i < j \<and> int j \<le> int (length arr) - 1
        \<and> arr ! i + arr ! j = target"
      by (intro exI [of _ i] exI [of _ j]) simp
    then have "two_sum_sorted arr target \<noteq> Inr None"
      unfolding two_sum_sorted_def using assms by (intro two_sum_loop_complete) simp_all
    with sound True show ?thesis by simp
  next
    case False
    with sound show ?thesis by auto
  qed
qed

theorem two_sum_sorted_finds_pair_witness:
  "sorted [1, 2, 3, 4, 6 :: int]
   \<and> (\<exists>i j. i < j \<and> j < length [1, 2, 3, 4, 6 :: int]
          \<and> [1, 2, 3, 4, 6 :: int] ! i + [1, 2, 3, 4, 6] ! j = 6)
   \<and> two_sum_sorted [1, 2, 3, 4, 6] 6 = Inr (Some (2, 4))
   \<and> sorted [1, 2, 3 :: int]
   \<and> \<not> (\<exists>i j. i < j \<and> j < length [1, 2, 3 :: int] \<and> [1, 2, 3 :: int] ! i + [1, 2, 3] ! j = 7)
   \<and> two_sum_sorted [1, 2, 3] 7 = Inr None"
proof -
  define xs where "xs = [1, 2, 3, 4, 6 :: int]"
  define ys where "ys = [1, 2, 3 :: int]"
  have a: "two_sum_sorted xs 6 = Inr (Some (2, 4))"
    by (simp add: xs_def two_sum_sorted_def two_sum_loop.simps py_index_def)
  have b: "two_sum_sorted ys 7 = Inr None"
    by (simp add: ys_def two_sum_sorted_def two_sum_loop.simps py_index_def)
  have sa: "sorted xs" and sb: "sorted ys"
    by (simp_all add: xs_def ys_def)
  have c: "\<exists>i j. i < j \<and> j < length xs \<and> xs ! i + xs ! j = 6"
  proof (rule ccontr)
    assume "\<not> ?thesis"
    with two_sum_sorted_finds_pair [OF sa, of 6] have "two_sum_sorted xs 6 = Inr None"
      by simp
    with a show False by simp
  qed
  have d: "\<not> (\<exists>i j. i < j \<and> j < length ys \<and> ys ! i + ys ! j = 7)"
  proof
    assume "\<exists>i j. i < j \<and> j < length ys \<and> ys ! i + ys ! j = 7"
    with two_sum_sorted_finds_pair [OF sb, of 7]
    have "\<exists>i j. two_sum_sorted ys 7 = Inr (Some (ys ! i, ys ! j))"
      by auto
    with b show False by simp
  qed
  from a b sa sb c d show ?thesis
    unfolding xs_def ys_def by blast
qed

subsection \<open>Correctness of \<open>remove_duplicates\<close>\<close>

lemma remdups_adj_snoc_same:
  assumes "xs \<noteq> []" "last xs = x"
  shows "remdups_adj (xs @ [x]) = remdups_adj xs"
proof -
  from assms obtain ys where "xs = ys @ [x]"
    by (cases xs rule: rev_cases) auto
  then show ?thesis
    using remdups_adj_append_two [of ys x x] by simp
qed

lemma remdups_adj_snoc_new:
  assumes "xs \<noteq> []" "last xs \<noteq> x"
  shows "remdups_adj (xs @ [x]) = remdups_adj xs @ [x]"
  using assms remdups_adj_append' [of xs "[x]"] by simp

lemma sorted_distinct_remdups_adj:
  "sorted xs \<Longrightarrow> distinct (remdups_adj xs)"
  by (induction xs rule: remdups_adj.induct) (auto split: if_splits)

lemma remove_duplicates_for_inv:
  assumes "length arr = length arr0" "1 \<le> w" "w \<le> k" "k \<le> length arr0"
    "take w arr = remdups_adj (take k arr0)"
    "\<And>p. w \<le> p \<Longrightarrow> p < length arr0 \<Longrightarrow> arr ! p = arr0 ! p"
  shows "\<exists>arr'. remove_duplicates_for [k..<length arr0] arr w
                  = Inr (arr', length (remdups_adj arr0))
              \<and> length arr' = length arr0
              \<and> take (length (remdups_adj arr0)) arr' = remdups_adj arr0"
  using assms
proof (induction "length arr0 - k" arbitrary: k arr w)
  case 0
  then have k: "k = length arr0" by simp
  with "0.prems" have "take w arr = remdups_adj arr0" by simp
  moreover from this have "length (remdups_adj arr0) = w"
    using "0.prems" by (metis k length_take min.absorb2)
  ultimately show ?case
    using "0.prems" by (simp add: k)
next
  case (Suc d)
  then have kn: "k < length arr0" by simp
  have upt: "[k..<length arr0] = k # [Suc k..<length arr0]"
    using kn by (simp add: upt_conv_Cons)
  have x: "py_index arr (int k) = Inr (arr0 ! k)"
    using kn Suc.prems by simp
  have kpos: "0 < k" using Suc.prems by simp
  then have k1: "int k - 1 = int (k - 1)"
    by (simp add: of_nat_diff)
  have tk1: "take k arr0 \<noteq> []"
    using kpos kn by auto
  have "last (take k arr0) = take k arr0 ! (length (take k arr0) - 1)"
    using tk1 by (rule last_conv_nth)
  also have "\<dots> = arr0 ! (k - 1)"
    using kpos kn by simp
  finally have tk2: "last (take k arr0) = arr0 ! (k - 1)" .
  note tk = tk1 tk2
  have prev: "arr ! (k - 1) = arr0 ! (k - 1)"
  proof (cases "w \<le> k - 1")
    case True
    then show ?thesis using Suc.prems(6) kn by simp
  next
    case False
    with Suc.prems have wk: "w = k" by simp
    have "take w arr \<noteq> []"
      using wk kpos kn Suc.prems(1) by auto
    then have "last (take w arr) = take w arr ! (length (take w arr) - 1)"
      by (rule last_conv_nth)
    also have "\<dots> = arr ! (k - 1)"
      using wk kpos kn Suc.prems(1) by simp
    finally have "arr ! (k - 1) = last (take w arr)" by simp
    also have "\<dots> = last (take k arr0)"
      using Suc.prems(5) by simp
    finally show ?thesis using tk by simp
  qed
  have "k - 1 < length arr"
    using kn Suc.prems(1) by simp
  then have "py_index arr (int (k - 1)) = Inr (arr ! (k - 1))"
    by (rule py_index_nat)
  then have y: "py_index arr (int k - 1) = Inr (arr0 ! (k - 1))"
    by (simp only: k1 prev)
  have tS: "take (Suc k) arr0 = take k arr0 @ [arr0 ! k]"
    using kn by (simp add: take_Suc_conv_app_nth)
  show ?case
  proof (cases "arr0 ! k \<noteq> arr0 ! (k - 1)")
    case True
    have wl: "w < length arr" using kn Suc.prems by simp
    have st: "py_store arr (int w) (arr0 ! k) = Inr (arr[w := arr0 ! k])"
      using wl by (simp add: py_store_def)
    have "take (Suc w) (arr[w := arr0 ! k]) = take w arr @ [arr0 ! k]"
      using wl by (simp add: take_Suc_conv_app_nth)
    also have "\<dots> = remdups_adj (take (Suc k) arr0)"
      using True tk Suc.prems(5) by (simp add: tS remdups_adj_snoc_new)
    finally have tk': "take (Suc w) (arr[w := arr0 ! k]) = remdups_adj (take (Suc k) arr0)" .
    have "\<exists>arr'. remove_duplicates_for [Suc k..<length arr0] (arr[w := arr0 ! k]) (Suc w)
                  = Inr (arr', length (remdups_adj arr0))
              \<and> length arr' = length arr0
              \<and> take (length (remdups_adj arr0)) arr' = remdups_adj arr0"
    proof (rule Suc.hyps(1))
      show "d = length arr0 - Suc k" using Suc.hyps(2) by simp
      show "length (arr[w := arr0 ! k]) = length arr0" using Suc.prems by simp
      show "1 \<le> Suc w" by simp
      show "Suc w \<le> Suc k" using Suc.prems by simp
      show "Suc k \<le> length arr0" using kn by simp
      show "take (Suc w) (arr[w := arr0 ! k]) = remdups_adj (take (Suc k) arr0)" by (rule tk')
      show "arr[w := arr0 ! k] ! p = arr0 ! p" if "Suc w \<le> p" "p < length arr0" for p
        using that Suc.prems(6) [of p] by simp
    qed
    then show ?thesis
      using True by (simp add: upt x y st)
  next
    case False
    have "take w arr = remdups_adj (take (Suc k) arr0)"
      using False tk Suc.prems(5) by (simp add: tS remdups_adj_snoc_same)
    have "\<exists>arr'. remove_duplicates_for [Suc k..<length arr0] arr w
                  = Inr (arr', length (remdups_adj arr0))
              \<and> length arr' = length arr0
              \<and> take (length (remdups_adj arr0)) arr' = remdups_adj arr0"
    proof (rule Suc.hyps(1))
      show "d = length arr0 - Suc k" using Suc.hyps(2) by simp
      show "length arr = length arr0" using Suc.prems by simp
      show "1 \<le> w" using Suc.prems by simp
      show "w \<le> Suc k" using Suc.prems by simp
      show "Suc k \<le> length arr0" using kn by simp
      show "take w arr = remdups_adj (take (Suc k) arr0)" by fact
      show "arr ! p = arr0 ! p" if "w \<le> p" "p < length arr0" for p
        using that Suc.prems(6) [of p] by simp
    qed
    then show ?thesis
      using False by (simp add: upt x y)
  qed
qed

lemma remove_duplicates_runs:
  "\<exists>arr'. remove_duplicates arr = Inr (arr', length (remdups_adj arr))
         \<and> length arr' = length arr
         \<and> take (length (remdups_adj arr)) arr' = remdups_adj arr"
proof (cases "arr = []")
  case True
  then show ?thesis by (simp add: remove_duplicates_def)
next
  case False
  then obtain x xs where arr: "arr = x # xs" by (cases arr) auto
  have "\<exists>arr'. remove_duplicates_for [1..<length arr] arr 1
                  = Inr (arr', length (remdups_adj arr))
              \<and> length arr' = length arr
              \<and> take (length (remdups_adj arr)) arr' = remdups_adj arr"
    by (rule remove_duplicates_for_inv) (simp_all add: arr)
  with False show ?thesis by (simp add: remove_duplicates_def)
qed

text \<open>
  Claim C6. For a list sorted ascending, \<open>remove_duplicates\<close> returns the number of
  distinct values, and afterwards the first that many elements of the list are the
  distinct values in ascending order. The empty list gives 0, and for every input the
  length of the list is unchanged.
\<close>

theorem remove_duplicates_sorted:
  "(sorted arr \<longrightarrow>
      (\<exists>arr'. remove_duplicates arr = Inr (arr', card (set arr))
            \<and> take (card (set arr)) arr' = sorted_list_of_set (set arr)))
   \<and> (\<exists>arr' n. remove_duplicates arr = Inr (arr', n) \<and> length arr' = length arr)
   \<and> remove_duplicates [] = Inr ([], 0)"
proof (intro conjI impI)
  from remove_duplicates_runs [of arr] obtain arr'
    where r: "remove_duplicates arr = Inr (arr', length (remdups_adj arr))"
      "length arr' = length arr"
      "take (length (remdups_adj arr)) arr' = remdups_adj arr"
    by blast
  then show "\<exists>arr' n. remove_duplicates arr = Inr (arr', n) \<and> length arr' = length arr"
    by blast
  show "remove_duplicates [] = Inr ([], 0)"
    by (simp add: remove_duplicates_def)
  assume s: "sorted arr"
  then have d: "distinct (remdups_adj arr)"
    by (rule sorted_distinct_remdups_adj)
  then have c: "card (set arr) = length (remdups_adj arr)"
    using distinct_card [of "remdups_adj arr"] by simp
  have "sorted_list_of_set (set arr) = remdups_adj arr"
    using s d by (intro sorted_distinct_set_unique) simp_all
  with r c show "\<exists>arr'. remove_duplicates arr = Inr (arr', card (set arr))
            \<and> take (card (set arr)) arr' = sorted_list_of_set (set arr)"
    by auto
qed

theorem remove_duplicates_sorted_witness:
  "sorted [1, 1, 2, 2, 3, 4, 4 :: int]
   \<and> remove_duplicates [1, 1, 2, 2, 3, 4, 4] = Inr ([1, 2, 3, 4, 3, 4, 4], 4)
   \<and> card (set [1, 1, 2, 2, 3, 4, 4 :: int]) = 4
   \<and> sorted_list_of_set (set [1, 1, 2, 2, 3, 4, 4 :: int]) = [1, 2, 3, 4]"
proof -
  define xs where "xs = [1, 1, 2, 2, 3, 4, 4 :: int]"
  have r: "remove_duplicates xs = Inr ([1, 2, 3, 4, 3, 4, 4], 4)"
    by (simp add: xs_def remove_duplicates_def py_index_def py_store_def upt_rec)
  have s: "sorted xs"
    by (simp add: xs_def)
  from remove_duplicates_sorted [of xs] s obtain arr'
    where "remove_duplicates xs = Inr (arr', card (set xs))"
      "take (card (set xs)) arr' = sorted_list_of_set (set xs)"
    by blast
  with r have "card (set xs) = 4" "sorted_list_of_set (set xs) = [1, 2, 3, 4]"
    by auto
  with r s show ?thesis
    unfolding xs_def by blast
qed

subsection \<open>\<open>reverse_string\<close> and \<open>max_area\<close> return\<close>

lemma reverse_loop_runs:
  "0 \<le> left \<Longrightarrow> right < int (length s) \<Longrightarrow> \<exists>r. reverse_loop s left right = Inr r"
proof (induction s left right rule: reverse_loop.induct)
  case (1 s left right)
  show ?case
  proof (cases "left < right")
    case False
    then show ?thesis by (subst reverse_loop.simps) simp
  next
    case True
    let ?s1 = "s[nat left := s ! nat right]"
    let ?s2 = "?s1[nat right := s ! nat left]"
    have r: "py_index s right = Inr (s ! nat right)"
      and l: "py_index s left = Inr (s ! nat left)"
      and s1: "py_store s left (s ! nat right) = Inr ?s1"
      and s2: "py_store ?s1 right (s ! nat left) = Inr ?s2"
      using True "1.prems" by (simp_all add: py_index_in_range py_store_in_range)
    have "\<exists>r. reverse_loop ?s2 (left + 1) (right - 1) = Inr r"
      using "1.IH" [OF True r l s1 s2] "1.prems" by simp
    moreover have "reverse_loop s left right = reverse_loop ?s2 (left + 1) (right - 1)"
      using True by (subst reverse_loop.simps) (simp add: r l s1 s2)
    ultimately show ?thesis by simp
  qed
qed

lemma max_area_loop_runs:
  "0 \<le> left \<Longrightarrow> right < int (length height) \<Longrightarrow>
   \<exists>r. max_area_loop height left right m = Inr r"
proof (induction height left right m rule: max_area_loop.induct)
  case (1 height left right m)
  show ?case
  proof (cases "left < right")
    case False
    then show ?thesis by (subst max_area_loop.simps) simp
  next
    case True
    let ?hl = "height ! nat left" and ?hr = "height ! nat right"
    let ?m = "max m (min ?hl ?hr * (right - left))"
    have l: "py_index height left = Inr ?hl" and r: "py_index height right = Inr ?hr"
      using True "1.prems" by (simp_all add: py_index_in_range)
    show ?thesis
    proof (cases "?hl < ?hr")
      case less: True
      have "\<exists>r. max_area_loop height (left + 1) right ?m = Inr r"
        using "1.IH"(1) [OF True refl l r refl refl less] "1.prems" by simp
      moreover have "max_area_loop height left right m =
          max_area_loop height (left + 1) right ?m"
        using True less by (subst max_area_loop.simps) (simp add: l r Let_def)
      ultimately show ?thesis by simp
    next
      case geq: False
      have "\<exists>r. max_area_loop height left (right - 1) ?m = Inr r"
        using "1.IH"(2) [OF True refl l r refl refl geq] "1.prems" by simp
      moreover have "max_area_loop height left right m =
          max_area_loop height left (right - 1) ?m"
        using True geq by (subst max_area_loop.simps) (simp add: l r Let_def)
      ultimately show ?thesis by simp
    qed
  qed
qed

lemma reverse_string_runs: "\<exists>r. reverse_string s = Inr r"
  unfolding reverse_string_def by (rule reverse_loop_runs) simp_all

lemma max_area_runs: "\<exists>r. max_area height = Inr r"
  unfolding max_area_def by (rule max_area_loop_runs) simp_all

subsection \<open>Correctness of \<open>length_of_longest_substring\<close>\<close>

lemma py_index_nat_Inr: "py_index xs (int i) = Inr v \<Longrightarrow> i < length xs"
  by (simp add: py_index_def split: if_splits)

lemma slice_same [simp]: "slice s r r = []"
  by (simp add: slice_def)

lemma length_slice: "i \<le> j \<Longrightarrow> j \<le> length s \<Longrightarrow> length (slice s i j) = j - i"
  by (simp add: slice_def)

lemma slice_snoc:
  assumes "i \<le> r" "r < length s"
  shows "slice s i (Suc r) = slice s i r @ [s ! r]"
proof -
  have "Suc r - i = Suc (r - i)" using assms by simp
  moreover have "r - i < length (drop i s)" using assms by simp
  moreover have "drop i s ! (r - i) = s ! r" using assms by simp
  ultimately show ?thesis
    by (simp add: slice_def take_Suc_conv_app_nth)
qed

lemma slice_cons:
  assumes "l < r" "r \<le> length s"
  shows "slice s l r = s ! l # slice s (Suc l) r"
proof -
  have "drop l s = s ! l # drop (Suc l) s"
    using assms by (simp add: Cons_nth_drop_Suc)
  moreover have "r - l = Suc (r - Suc l)" using assms by simp
  ultimately show ?thesis
    by (simp add: slice_def)
qed

lemma sublist_slice: "i \<le> j \<Longrightarrow> j \<le> length s \<Longrightarrow> sublist (slice s i j) s"
proof -
  assume "i \<le> j" "j \<le> length s"
  have "sublist (take (j - i) (drop i s)) (drop i s)" by simp
  moreover have "sublist (drop i s) s" by simp
  ultimately show ?thesis
    unfolding slice_def by (rule sublist_order.order_trans)
qed

lemma sublist_is_slice:
  assumes "sublist w s"
  shows "\<exists>i j. i \<le> j \<and> j \<le> length s \<and> slice s i j = w"
proof -
  from assms obtain ps ss where s: "s = ps @ w @ ss"
    by (auto simp: sublist_def)
  have "slice s (length ps) (length ps + length w) = w"
    by (simp add: slice_def s)
  moreover have "length ps + length w \<le> length s"
    by (simp add: s)
  ultimately show ?thesis
    by (intro exI [of _ "length ps"] exI [of _ "length ps + length w"]) simp
qed


lemma shrink_window_spec:
  assumes "r < length s" "left \<le> r" "cs = set (slice s left r)" "distinct (slice s left r)"
  shows "\<exists>left'. shrink_window s r cs left = Inr (set (slice s left' r), left')
           \<and> left \<le> left' \<and> left' \<le> r \<and> distinct (slice s left' r)
           \<and> s ! r \<notin> set (slice s left' r)
           \<and> (\<forall>l. left \<le> l \<and> l < left' \<longrightarrow> s ! r \<in> set (slice s l r))"
  using assms
proof (induction "r - left" arbitrary: left cs)
  case 0
  then have "left = r" by simp
  with 0 have "shrink_window s r cs left = Inr (set (slice s r r), r)"
    by (subst shrink_window.simps) simp
  with \<open>left = r\<close> show ?case
    by (intro exI [of _ r]) auto
next
  case (Suc d)
  then have lt: "left < r" by simp
  have rs: "py_index s (int r) = Inr (s ! r)"
    using Suc.prems by simp
  have ls: "py_index s (int left) = Inr (s ! left)"
    using lt Suc.prems by simp
  have cons: "slice s left r = s ! left # slice s (Suc left) r"
    using lt Suc.prems by (simp add: slice_cons)
  show ?case
  proof (cases "s ! r \<in> cs")
    case False
    then have "shrink_window s r cs left = Inr (cs, left)"
      by (subst shrink_window.simps) (simp add: rs)
    with False Suc.prems show ?thesis
      by (intro exI [of _ left]) auto
  next
    case True
    have head_in: "s ! left \<in> cs"
      using Suc.prems(3) cons by simp
    have rest: "cs - {s ! left} = set (slice s (Suc left) r)"
      using Suc.prems(3,4) cons by auto
    have dist: "distinct (slice s (Suc left) r)"
      using Suc.prems(4) cons by simp
    have "\<exists>left'. shrink_window s r (cs - {s ! left}) (Suc left)
             = Inr (set (slice s left' r), left')
           \<and> Suc left \<le> left' \<and> left' \<le> r \<and> distinct (slice s left' r)
           \<and> s ! r \<notin> set (slice s left' r)
           \<and> (\<forall>l. Suc left \<le> l \<and> l < left' \<longrightarrow> s ! r \<in> set (slice s l r))"
    proof (rule Suc.hyps(1))
      show "d = r - Suc left" using Suc.hyps(2) by simp
      show "r < length s" by (rule Suc.prems(1))
      show "Suc left \<le> r" using lt by simp
      show "cs - {s ! left} = set (slice s (Suc left) r)" by (rule rest)
      show "distinct (slice s (Suc left) r)" by (rule dist)
    qed
    then obtain left' where l':
      "shrink_window s r (cs - {s ! left}) (Suc left) = Inr (set (slice s left' r), left')"
      "Suc left \<le> left'" "left' \<le> r" "distinct (slice s left' r)"
      "s ! r \<notin> set (slice s left' r)"
      "\<And>l. Suc left \<le> l \<Longrightarrow> l < left' \<Longrightarrow> s ! r \<in> set (slice s l r)"
      by blast
    have run: "shrink_window s r cs left = Inr (set (slice s left' r), left')"
      using True head_in l'(1) by (subst shrink_window.simps) (simp add: rs ls)
    have passed: "s ! r \<in> set (slice s l r)" if "left \<le> l" "l < left'" for l
    proof (cases "l = left")
      case True
      with \<open>s ! r \<in> cs\<close> Suc.prems(3) show ?thesis by simp
    next
      case False
      with that have "Suc left \<le> l" by simp
      then show ?thesis using that(2) by (rule l'(6))
    qed
    show ?thesis
      using run l'(2-5) passed by (intro exI [of _ left']) auto
  qed
qed

text \<open>The window invariant at the start of the round for \<open>right = r\<close>.\<close>

lemma longest_for_inv:
  assumes "r \<le> length s" "left \<le> r" "cs = set (slice s left r)"
    "distinct (slice s left r)"
    "\<And>i. i \<le> r \<Longrightarrow> distinct (slice s i r) \<Longrightarrow> left \<le> i"
    "\<And>i j. i \<le> j \<Longrightarrow> j \<le> r \<Longrightarrow> distinct (slice s i j) \<Longrightarrow> int (j - i) \<le> m"
    "\<exists>i j. i \<le> j \<and> j \<le> r \<and> distinct (slice s i j) \<and> m = int (j - i)"
  shows "\<exists>m'. longest_for [r..<length s] s cs left m = Inr m'
           \<and> (\<forall>i j. i \<le> j \<and> j \<le> length s \<and> distinct (slice s i j) \<longrightarrow> int (j - i) \<le> m')
           \<and> (\<exists>i j. i \<le> j \<and> j \<le> length s \<and> distinct (slice s i j) \<and> m' = int (j - i))"
  using assms
proof (induction "length s - r" arbitrary: r left cs m)
  case 0
  then have "r = length s" by simp
  with 0 show ?case by auto
next
  case (Suc d)
  then have rn: "r < length s" by simp
  have upt: "[r..<length s] = r # [Suc r..<length s]"
    using rn by (simp add: upt_conv_Cons)
  from shrink_window_spec [OF rn Suc.prems(2,3,4)] obtain left' where l':
    "shrink_window s r cs left = Inr (set (slice s left' r), left')"
    "left \<le> left'" "left' \<le> r" "distinct (slice s left' r)"
    "s ! r \<notin> set (slice s left' r)"
    "\<And>l. left \<le> l \<Longrightarrow> l < left' \<Longrightarrow> s ! r \<in> set (slice s l r)"
    by blast
  define m1 where "m1 = max m (int r - int left' + 1)"
  have m1: "m1 = max m (int (Suc r - left'))"
    using l'(3) by (simp add: m1_def)
  have snoc: "slice s i (Suc r) = slice s i r @ [s ! r]" if "i \<le> r" for i
    using that rn by (rule slice_snoc)
  have step: "longest_for [r..<length s] s cs left m =
      longest_for [Suc r..<length s] s (insert (s ! r) (set (slice s left' r))) left' m1"
    using rn by (simp add: upt l'(1) m1_def)
  have "\<exists>m'. longest_for [Suc r..<length s] s (insert (s ! r) (set (slice s left' r))) left' m1
             = Inr m'
           \<and> (\<forall>i j. i \<le> j \<and> j \<le> length s \<and> distinct (slice s i j) \<longrightarrow> int (j - i) \<le> m')
           \<and> (\<exists>i j. i \<le> j \<and> j \<le> length s \<and> distinct (slice s i j) \<and> m' = int (j - i))"
  proof (rule Suc.hyps(1))
    show "d = length s - Suc r" using Suc.hyps(2) by simp
    show "Suc r \<le> length s" using rn by simp
    show "left' \<le> Suc r" using l'(3) by simp
    show "insert (s ! r) (set (slice s left' r)) = set (slice s left' (Suc r))"
      using l'(3) by (simp add: snoc)
    show "distinct (slice s left' (Suc r))"
      using l'(3,4,5) by (simp add: snoc)
    show "left' \<le> i" if "i \<le> Suc r" "distinct (slice s i (Suc r))" for i
    proof (cases "i \<le> r")
      case False
      with that l'(3) show ?thesis by simp
    next
      case True
      with that(2) have d: "distinct (slice s i r)" and notin: "s ! r \<notin> set (slice s i r)"
        by (simp_all add: snoc)
      from True d have "left \<le> i" by (rule Suc.prems(5))
      with notin l'(6) [of i] show ?thesis
        by (meson not_le_imp_less)
    qed
    show "int (j - i) \<le> m1" if "i \<le> j" "j \<le> Suc r" "distinct (slice s i j)" for i j
    proof (cases "j \<le> r")
      case True
      with that have "int (j - i) \<le> m" by (intro Suc.prems(6))
      then show ?thesis by (simp add: m1)
    next
      case False
      with that have j: "j = Suc r" by simp
      have "left' \<le> i"
      proof (cases "i \<le> r")
        case False
        with that j l'(3) show ?thesis by simp
      next
        case True
        with that(3) j have d: "distinct (slice s i r)"
          and notin: "s ! r \<notin> set (slice s i r)"
          by (simp_all add: snoc)
        from True d have "left \<le> i" by (rule Suc.prems(5))
        with notin l'(6) [of i] show ?thesis
          by (meson not_le_imp_less)
      qed
      then show ?thesis
        using j by (simp add: m1)
    qed
    show "\<exists>i j. i \<le> j \<and> j \<le> Suc r \<and> distinct (slice s i j) \<and> m1 = int (j - i)"
    proof (cases "m1 = m")
      case True
      from Suc.prems(7) obtain i j
        where "i \<le> j" "j \<le> r" "distinct (slice s i j)" "m = int (j - i)" by blast
      with True show ?thesis
        by (intro exI [of _ i] exI [of _ j]) simp
    next
      case False
      then have "m1 = int (Suc r - left')"
        by (simp add: m1 max_def split: if_splits)
      moreover have "distinct (slice s left' (Suc r))"
        using l'(3,4,5) by (simp add: snoc)
      ultimately show ?thesis
        using l'(3) by (intro exI [of _ left'] exI [of _ "Suc r"]) simp
    qed
  qed
  with step show ?case by simp
qed

lemma longest_runs:
  "\<exists>m. length_of_longest_substring s = Inr (int m)
       \<and> (\<forall>w. sublist w s \<and> distinct w \<longrightarrow> length w \<le> m)
       \<and> (\<exists>w. sublist w s \<and> distinct w \<and> length w = m)"
proof -
  have "\<exists>m'. longest_for [0..<length s] s {} 0 0 = Inr m'
           \<and> (\<forall>i j. i \<le> j \<and> j \<le> length s \<and> distinct (slice s i j) \<longrightarrow> int (j - i) \<le> m')
           \<and> (\<exists>i j. i \<le> j \<and> j \<le> length s \<and> distinct (slice s i j) \<and> m' = int (j - i))"
    by (rule longest_for_inv) simp_all
  then obtain m' i j where r: "longest_for [0..<length s] s {} 0 0 = Inr m'"
    and up: "\<And>i j. i \<le> j \<Longrightarrow> j \<le> length s \<Longrightarrow> distinct (slice s i j) \<Longrightarrow> int (j - i) \<le> m'"
    and at: "i \<le> j" "j \<le> length s" "distinct (slice s i j)" "m' = int (j - i)"
    by blast
  have "length w \<le> j - i" if "sublist w s" "distinct w" for w
  proof -
    from sublist_is_slice [OF that(1)] obtain a b
      where ab: "a \<le> b" "b \<le> length s" "slice s a b = w" by blast
    with that(2) have "int (b - a) \<le> m'" by (intro up) simp_all
    moreover have "length w = b - a"
      using ab length_slice [of a b s] by simp
    ultimately show ?thesis using at(4) by simp
  qed
  moreover have "sublist (slice s i j) s \<and> distinct (slice s i j) \<and> length (slice s i j) = j - i"
    using at by (simp add: sublist_slice length_slice)
  ultimately show ?thesis
    using r at(4) unfolding length_of_longest_substring_def
    by (intro exI [of _ "j - i"]) blast
qed

lemma finite_distinct_sublists: "finite {w. sublist w s \<and> distinct w}"
proof (rule finite_subset)
  show "{w. sublist w s \<and> distinct w} \<subseteq> {w. set w \<subseteq> set s \<and> length w \<le> length s}"
    by (auto dest: set_mono_sublist sublist_length_le)
  show "finite {w. set w \<subseteq> set s \<and> length w \<le> length s}"
    by (rule finite_lists_length_le) simp
qed

lemma longest_distinct_eq:
  assumes "\<And>w. sublist w s \<Longrightarrow> distinct w \<Longrightarrow> length w \<le> m"
    and "sublist v s" "distinct v" "length v = m"
  shows "longest_distinct s = m"
  unfolding longest_distinct_def
proof (rule Max_eqI)
  show "finite (length ` {w. sublist w s \<and> distinct w})"
    using finite_distinct_sublists by (rule finite_imageI)
  show "y \<le> m" if "y \<in> length ` {w. sublist w s \<and> distinct w}" for y
    using that assms(1) by auto
  show "m \<in> length ` {w. sublist w s \<and> distinct w}"
    using assms(2-4) by auto
qed

lemma longest_distinct_bounds:
  "longest_distinct s \<le> length s \<and> longest_distinct s \<le> card (set s)"
proof -
  from longest_runs [of s] obtain m v where
    up: "\<And>w. sublist w s \<Longrightarrow> distinct w \<Longrightarrow> length w \<le> m"
    and v: "sublist v s" "distinct v" "length v = m"
    by blast
  then have m: "longest_distinct s = m"
    by (rule longest_distinct_eq)
  have "m \<le> length s"
    using v sublist_length_le by blast
  moreover have "card (set v) \<le> card (set s)"
    using v(1) by (intro card_mono set_mono_sublist) simp_all
  then have "m \<le> card (set s)"
    using v(2,3) distinct_card [of v] by simp
  ultimately show ?thesis using m by simp
qed

text \<open>
  Claim C9. For every string, \<open>length_of_longest_substring\<close> returns the length of the
  longest contiguous substring with pairwise distinct characters. So the result is at
  most the length of the string and at most the number of distinct characters in it,
  and the empty string gives 0.
\<close>

theorem length_of_longest_substring_correct:
  "length_of_longest_substring s = Inr (int (longest_distinct s))
   \<and> longest_distinct s \<le> length s
   \<and> longest_distinct s \<le> card (set s)
   \<and> (\<exists>w. sublist w s \<and> distinct w \<and> length w = longest_distinct s)
   \<and> length_of_longest_substring [] = Inr 0"
proof -
  from longest_runs [of s] obtain m v where
    r: "length_of_longest_substring s = Inr (int m)"
    and up: "\<And>w. sublist w s \<Longrightarrow> distinct w \<Longrightarrow> length w \<le> m"
    and v: "sublist v s" "distinct v" "length v = m"
    by blast
  from up v have m: "longest_distinct s = m"
    by (rule longest_distinct_eq)
  have "length_of_longest_substring [] = Inr 0"
    by (simp add: length_of_longest_substring_def)
  with r m v longest_distinct_bounds [of s] show ?thesis
    by auto
qed

theorem length_of_longest_substring_correct_witness:
  "length_of_longest_substring ''abcabcbb'' = Inr 3 \<and> longest_distinct ''abcabcbb'' = 3
   \<and> length_of_longest_substring ''bbbbb'' = Inr 1 \<and> longest_distinct ''bbbbb'' = 1
   \<and> length_of_longest_substring ''pwwkew'' = Inr 3 \<and> longest_distinct ''pwwkew'' = 3"
proof -
  have a: "length_of_longest_substring ''abcabcbb'' = Inr 3"
    by (simp add: length_of_longest_substring_def shrink_window.simps py_index_def upt_rec)
  have b: "length_of_longest_substring ''bbbbb'' = Inr 1"
    by (simp add: length_of_longest_substring_def shrink_window.simps py_index_def upt_rec)
  have c: "length_of_longest_substring ''pwwkew'' = Inr 3"
    by (simp add: length_of_longest_substring_def shrink_window.simps py_index_def upt_rec)
  have eq: "length_of_longest_substring s = Inr (int (longest_distinct s))" for s :: string
    using length_of_longest_substring_correct [of s] by (rule conjunct1)
  have "longest_distinct ''abcabcbb'' = 3"
    using eq [of "''abcabcbb''"] by (simp only: a) simp
  moreover have "longest_distinct ''bbbbb'' = 1"
    using eq [of "''bbbbb''"] by (simp only: b) simp
  moreover have "longest_distinct ''pwwkew'' = 3"
    using eq [of "''pwwkew''"] by (simp only: c) simp
  ultimately show ?thesis
    using a b c by blast
qed

subsection \<open>Properties of \<open>merge_sorted_arrays\<close>\<close>

lemma merge_suffixes_Nil [simp]: "merge_suffixes [] ys = ys"
  by (cases ys) simp_all

lemma merge_loop_suffixes:
  "i \<le> length arr1 \<Longrightarrow> j \<le> length arr2 \<Longrightarrow>
   (case merge_loop arr1 arr2 i j merged of
      (i', j', out) \<Rightarrow> out @ drop i' arr1 @ drop j' arr2)
   = merged @ merge_suffixes (drop i arr1) (drop j arr2)"
proof (induction arr1 arr2 i j merged rule: merge_loop.induct)
  case (1 arr1 arr2 i j merged)
  show ?case
  proof (cases "i < length arr1 \<and> j < length arr2")
    case inside: True
    then have di: "drop i arr1 = arr1 ! i # drop (Suc i) arr1"
      and dj: "drop j arr2 = arr2 ! j # drop (Suc j) arr2"
      by (simp_all add: Cons_nth_drop_Suc)
    show ?thesis
    proof (cases "arr1 ! i < arr2 ! j")
      case True
      with inside "1.IH"(1) show ?thesis
        by (subst merge_loop.simps) (simp add: di dj)
    next
      case False
      with inside "1.IH"(2) show ?thesis
        by (subst merge_loop.simps) (simp add: di dj)
    qed
  next
    case False
    with "1.prems" have "drop i arr1 = [] \<or> drop j arr2 = []"
      by auto
    with False show ?thesis
      by (subst merge_loop.simps) (cases "drop i arr1", auto)
  qed
qed

lemma merge_sorted_arrays_suffixes:
  "merge_sorted_arrays arr1 arr2 = merge_suffixes arr1 arr2"
  using merge_loop_suffixes [of 0 arr1 0 arr2 "[]"]
  by (simp add: merge_sorted_arrays_def)

lemma merge_sorted_arrays_Cons:
  "merge_sorted_arrays (x # xs) (y # ys) =
     (if x < y then x # merge_sorted_arrays xs (y # ys)
      else y # merge_sorted_arrays (x # xs) ys)"
  by (simp add: merge_sorted_arrays_suffixes)

lemma mset_merge_suffixes: "mset (merge_suffixes xs ys) = mset xs + mset ys"
  by (induction xs ys rule: merge_suffixes.induct) simp_all

lemma set_merge_suffixes: "set (merge_suffixes xs ys) = set xs \<union> set ys"
  using mset_merge_suffixes [of xs ys] by (metis set_mset_mset set_mset_union)

lemma sorted_merge_suffixes:
  "sorted xs \<Longrightarrow> sorted ys \<Longrightarrow> sorted (merge_suffixes xs ys)"
  by (induction xs ys rule: merge_suffixes.induct)
     (auto simp: set_merge_suffixes)

text \<open>
  Claim C1 (as amended). When the elements under the two cursors are equal, the loop
  appends the element of the right operand \<open>arr2\<close> and advances the cursor \<open>j\<close> of
  \<open>arr2\<close>: ties favour the right operand. On lists: merging \<open>x # a'\<close> with \<open>y # b'\<close> when
  \<open>x = y\<close> gives \<open>y\<close> followed by the merge of \<open>x # a'\<close> with \<open>b'\<close>.
\<close>

theorem merge_ties_take_right:
  "(i < length a \<and> j < length b \<and> a ! i = b ! j \<longrightarrow>
      merge_loop a b i j merged = merge_loop a b i (j + 1) (merged @ [b ! j]))
   \<and> (x = y \<longrightarrow>
      merge_sorted_arrays (x # a') (y # b') = y # merge_sorted_arrays (x # a') b')"
proof (intro conjI impI)
  assume "i < length a \<and> j < length b \<and> a ! i = b ! j"
  then show "merge_loop a b i j merged = merge_loop a b i (j + 1) (merged @ [b ! j])"
    by (subst merge_loop.simps) simp
next
  assume "x = y"
  then show "merge_sorted_arrays (x # a') (y # b') = y # merge_sorted_arrays (x # a') b'"
    by (simp add: merge_sorted_arrays_Cons)
qed

theorem merge_ties_take_right_witness:
  "merge_loop [1, 4 :: int] [1, 2] 0 0 [] = merge_loop [1, 4] [1, 2] 0 (0 + 1) ([] @ [1])
   \<and> merge_sorted_arrays [1, 4 :: int] [1, 2] = 1 # merge_sorted_arrays [1, 4] [2]
   \<and> merge_sorted_arrays [1, 4 :: int] [1, 2] = [1, 1, 2, 4]"
proof -
  have "merge_sorted_arrays [1, 4 :: int] [1, 2] = [1, 1, 2, 4]"
    by (simp add: merge_sorted_arrays_def merge_loop.simps)
  then show ?thesis
    using merge_ties_take_right
      [of 0 "[1, 4 :: int]" 0 "[1, 2]" "[]" "1 :: int" 1 "[4]" "[2]"]
    by simp
qed

text \<open>
  The claim as stated (ties favour the left operand) fails: on equal elements the cursor
  of \<open>arr2\<close> moves, not that of \<open>arr1\<close>, and on the lists \<open>[3, 0]\<close>, \<open>[3, 5]\<close> the output
  is not \<open>3\<close> followed by the merge of \<open>[0]\<close> with \<open>[3, 5]\<close>.
\<close>

theorem merge_ties_take_left_counterexample:
  "merge_loop [1 :: int] [1] 0 0 [] \<noteq> merge_loop [1] [1] (0 + 1) 0 ([] @ [1])
   \<and> merge_sorted_arrays [3, 0] [3, 5] \<noteq> (3 :: int) # merge_sorted_arrays [0] [3, 5]"
  by (simp add: merge_sorted_arrays_def merge_loop.simps)

text \<open>
  Claim C5. The output of \<open>merge_sorted_arrays\<close> has length \<open>len(a) + len(b)\<close> for all
  inputs, and it is sorted ascending whenever both inputs are.
\<close>

theorem merge_length_sorted:
  "length (merge_sorted_arrays a b) = length a + length b
   \<and> (sorted a \<and> sorted b \<longrightarrow> sorted (merge_sorted_arrays a b))"
proof
  have "size (mset (merge_sorted_arrays a b)) = size (mset a + mset b)"
    by (simp only: merge_sorted_arrays_suffixes mset_merge_suffixes)
  then show "length (merge_sorted_arrays a b) = length a + length b"
    by simp
  show "sorted a \<and> sorted b \<longrightarrow> sorted (merge_sorted_arrays a b)"
    by (simp add: merge_sorted_arrays_suffixes sorted_merge_suffixes)
qed

theorem merge_length_sorted_witness:
  "length (merge_sorted_arrays [1, 3, 5] [2, 4, 6 :: int]) = 6
   \<and> sorted (merge_sorted_arrays [1, 3, 5] [2, 4, 6 :: int])"
  using merge_length_sorted [of "[1, 3, 5 :: int]" "[2, 4, 6]"] by simp

text \<open>
  Claim C10. For all inputs, sorted or not, the output is a permutation of the
  concatenation of the inputs: each element occurs as often as in \<open>a\<close> and \<open>b\<close> together.
\<close>

theorem merge_permutation:
  "mset (merge_sorted_arrays a b) = mset (a @ b)"
  by (simp add: merge_sorted_arrays_suffixes mset_merge_suffixes)

subsection \<open>Walking along links\<close>

lemma follow_None [simp]: "follow h None = None"
  by (simp add: follow_def)

lemma follow_Some [simp]: "follow h (Some a) = nxt (h a)"
  by (simp add: follow_def)

lemma walk_None [simp]: "walk h k None = None"
  by (induction k) simp_all

lemma walk_add: "walk h (m + n) r = walk h n (walk h m r)"
  by (induction n) simp_all

lemma walk_Suc_right: "walk h (Suc k) r = follow h (walk h k r)"
  by simp

lemma walk_None_le: "walk h k r = None \<Longrightarrow> k \<le> k' \<Longrightarrow> walk h k' r = None"
  using walk_add [of h k "k' - k" r] by simp

lemma walk_Some_le:
  assumes "walk h k' r \<noteq> None" "k \<le> k'"
  shows "walk h k r \<noteq> None"
proof
  assume "walk h k r = None"
  then have "walk h k' r = None"
    using assms(2) by (rule walk_None_le)
  with assms(1) show False by simp
qed

lemma walk_commute: "walk h m (walk h n r) = walk h n (walk h m r)"
proof -
  have "walk h (n + m) r = walk h (m + n) r"
    by (simp only: add.commute)
  then show ?thesis
    by (simp only: walk_add)
qed

lemma walk_period:
  assumes "walk h p r = r"
  shows "walk h (p * t) r = r"
proof (induction t)
  case 0
  show ?case by simp
next
  case (Suc t)
  have "walk h (p * Suc t) r = walk h (p * t) (walk h p r)"
    using walk_add [of h p "p * t" r] by simp
  with assms Suc show ?case by simp
qed

lemma walk_period_shift:
  assumes "walk h p r = r"
  shows "walk h p (walk h d r) = walk h d r"
proof -
  have "walk h p (walk h d r) = walk h (d + p) r"
    by (simp add: walk_add)
  also have "\<dots> = walk h (p + d) r"
    by (simp add: add.commute)
  also have "\<dots> = walk h d r"
    using assms by (simp add: walk_add)
  finally show ?thesis .
qed

lemma on_cycle_endless:
  assumes "walk h m (Some a) = Some a" "0 < m"
  shows "walk h k (Some a) \<noteq> None"
proof -
  have "walk h (m * k) (Some a) = Some a"
    using assms(1) by (rule walk_period)
  moreover have "k \<le> m * k"
    using assms(2) by simp
  ultimately show ?thesis
    using walk_Some_le [of h "m * k" "Some a" k] by simp
qed

lemma cyclic_endless:
  assumes "cyclic h head"
  shows "endless h head"
proof -
  from assms obtain a k m where a: "walk h k head = Some a" "0 < m" "walk h m (Some a) = Some a"
    by (auto simp: cyclic_def on_cycle_def)
  show ?thesis
    unfolding endless_def
  proof
    fix n
    have "walk h n (walk h k head) \<noteq> None"
      using a on_cycle_endless [of h m a n] by simp
    then have "walk h (k + n) head \<noteq> None"
      by (simp add: walk_add)
    then show "walk h n head \<noteq> None"
      by (rule walk_Some_le) simp
  qed
qed

lemma endless_repeat:
  assumes fin: "finite (reach h head)" and e: "endless h head"
  shows "\<exists>i p. 0 < p \<and> walk h (i + p) head = walk h i head"
proof -
  let ?x = "\<lambda>k. the (walk h k head)"
  have rng: "range ?x \<subseteq> reach h head"
    using e by (auto simp: reach_def endless_def)
  have "finite (range ?x)"
    using fin rng by (rule rev_finite_subset)
  then have "\<not> inj ?x"
    using finite_imageD infinite_UNIV_nat by blast
  then obtain i j where ij: "?x i = ?x j" "i \<noteq> j"
    by (auto simp: inj_on_def)
  then have eq: "walk h i head = walk h j head"
    using e by (metis endless_def option.expand)
  show ?thesis
  proof (cases "i < j")
    case True
    then have "0 < j - i \<and> walk h (i + (j - i)) head = walk h i head"
      using eq by simp
    then show ?thesis by blast
  next
    case False
    with ij have "0 < i - j \<and> walk h (j + (i - j)) head = walk h j head"
      using eq by simp
    then show ?thesis by blast
  qed
qed

lemma endless_cyclic:
  assumes fin: "finite (reach h head)" and e: "endless h head"
  shows "cyclic h head"
proof -
  from endless_repeat [OF fin e] obtain i p
    where p: "0 < p" "walk h (i + p) head = walk h i head" by blast
  from e obtain a where a: "walk h i head = Some a"
    by (auto simp: endless_def)
  with p have "walk h p (Some a) = Some a"
    by (simp add: walk_add)
  with p a show ?thesis
    by (auto simp: cyclic_def on_cycle_def)
qed

lemma endless_meet:
  assumes fin: "finite (reach h head)" and e: "endless h head"
  shows "\<exists>n>0. walk h n head = walk h (2 * n) head"
proof -
  from endless_repeat [OF fin e] obtain i p
    where p: "0 < p" "walk h (i + p) head = walk h i head" by blast
  define n where "n = p * Suc i"
  define y where "y = walk h i head"
  have per: "walk h p y = y"
    using p by (simp add: walk_add y_def)
  have ge: "i \<le> n" "0 < n"
    using p by (simp_all add: n_def Suc_leI trans_le_add2)
  have "i + (n - i) = n"
    using ge by simp
  then have split: "walk h n head = walk h (n - i) y"
    unfolding y_def using walk_add [of h i "n - i" head] by metis
  have yn: "walk h n y = y"
    unfolding n_def using per by (rule walk_period)
  have "walk h n (walk h n head) = walk h n (walk h (n - i) y)"
    by (simp only: split)
  also have "\<dots> = walk h (n - i) (walk h n y)"
    by (rule walk_commute)
  also have "\<dots> = walk h n head"
    by (simp only: yn split)
  finally have "walk h (n + n) head = walk h n head"
    by (simp only: walk_add)
  then have "walk h n head = walk h (2 * n) head"
    by (simp only: mult_2)
  with ge show ?thesis by blast
qed

subsection \<open>Unrolling the loops\<close>

lemma fast_slow_iterate:
  assumes step: "\<And>s f. G s f \<Longrightarrow> L s f = L (follow h s) (follow h (follow h f))"
    and go: "\<And>i. i < j \<Longrightarrow> G (walk h i s) (walk h (2 * i) f)"
  shows "L s f = L (walk h j s) (walk h (2 * j) f)"
  using go
proof (induction j)
  case 0
  show ?case by simp
next
  case (Suc j)
  have "L s f = L (walk h j s) (walk h (2 * j) f)"
    using Suc by simp
  also have "\<dots> = L (follow h (walk h j s)) (follow h (follow h (walk h (2 * j) f)))"
    using Suc.prems [of j] by (simp add: step)
  also have "\<dots> = L (walk h (Suc j) s) (walk h (2 * Suc j) f)"
    by simp
  finally show ?case .
qed

lemma has_cycle_loop_step:
  assumes "follow h fast \<noteq> None" "slow \<noteq> None"
    "follow h slow \<noteq> follow h (follow h fast)"
  shows "has_cycle_loop h slow fast =
         has_cycle_loop h (follow h slow) (follow h (follow h fast))"
  using assms by (subst has_cycle_loop.simps) (auto simp: follow_def split: option.splits)

lemma has_cycle_loop_exit:
  assumes "follow h fast = None"
  shows "has_cycle_loop h slow fast = Some (Inr False)"
  using assms by (subst has_cycle_loop.simps) (auto simp: follow_def split: option.splits)

lemma has_cycle_loop_meet:
  assumes "follow h fast \<noteq> None" "slow \<noteq> None"
    "follow h slow = follow h (follow h fast)"
  shows "has_cycle_loop h slow fast = Some (Inr True)"
  using assms by (subst has_cycle_loop.simps) (auto simp: follow_def split: option.splits)

lemma detect_loop_step:
  assumes "follow h fast \<noteq> None" "slow \<noteq> None"
    "follow h slow \<noteq> follow h (follow h fast)"
  shows "detect_loop h slow fast =
         detect_loop h (follow h slow) (follow h (follow h fast))"
  using assms by (subst detect_loop.simps) (auto simp: follow_def split: option.splits)

lemma detect_loop_exit:
  assumes "follow h fast = None"
  shows "detect_loop h slow fast = Some (Inr None)"
  using assms by (subst detect_loop.simps) (auto simp: follow_def split: option.splits)

lemma detect_loop_meet:
  assumes "follow h fast \<noteq> None" "slow \<noteq> None"
    "follow h slow = follow h (follow h fast)"
  shows "detect_loop h slow fast = Some (Inr (Some (follow h slow)))"
  using assms by (subst detect_loop.simps) (auto simp: follow_def split: option.splits)

lemma find_middle_loop_step:
  assumes "follow h fast \<noteq> None" "slow \<noteq> None"
  shows "find_middle_loop h slow fast =
         find_middle_loop h (follow h slow) (follow h (follow h fast))"
  using assms by (subst find_middle_loop.simps) (auto simp: follow_def split: option.splits)

lemma find_middle_loop_exit:
  assumes "follow h fast = None"
  shows "find_middle_loop h slow fast = Some (Inr slow)"
  using assms by (subst find_middle_loop.simps) (auto simp: follow_def split: option.splits)

lemma start_loop_step:
  assumes "start \<noteq> slow" "start \<noteq> None" "slow \<noteq> None"
  shows "start_loop h start slow = start_loop h (follow h start) (follow h slow)"
  using assms by (subst start_loop.simps) (auto simp: follow_def split: option.splits)

lemma start_loop_exit: "start_loop h start start = Some (Inr start)"
  by (subst start_loop.simps) simp

lemma start_loop_iterate:
  assumes "\<And>i. i < j \<Longrightarrow>
    walk h i s \<noteq> walk h i t \<and> walk h i s \<noteq> None \<and> walk h i t \<noteq> None"
  shows "start_loop h s t = start_loop h (walk h j s) (walk h j t)"
  using assms
proof (induction j)
  case 0
  show ?case by simp
next
  case (Suc j)
  have "start_loop h s t = start_loop h (walk h j s) (walk h j t)"
    using Suc by simp
  also have "\<dots> = start_loop h (follow h (walk h j s)) (follow h (walk h j t))"
    using Suc.prems [of j] by (simp add: start_loop_step)
  finally show ?case
    by (simp only: walk_Suc_right)
qed

subsection \<open>The first phase: where fast and slow stop\<close>

lemma passes_iff:
  "passes h head i =
     (follow h (walk h (2 * i) head) \<noteq> None \<and>
      follow h (walk h i head) \<noteq> follow h (follow h (walk h (2 * i) head)))"
  by (simp add: passes_def)

lemma follow_Some_arg: "follow h r \<noteq> None \<Longrightarrow> r \<noteq> None"
  by (cases r) simp_all

lemma slow_behind:
  assumes "follow h (walk h (2 * i) head) \<noteq> None"
  shows "walk h i head \<noteq> None"
proof -
  from assms have "walk h (2 * i) head \<noteq> None"
    by (rule follow_Some_arg)
  then show ?thesis
    by (rule walk_Some_le) simp
qed

lemma passes_guard:
  assumes "passes h head i"
  shows "follow h (walk h (2 * i) head) \<noteq> None \<and> walk h i head \<noteq> None \<and>
         follow h (walk h i head) \<noteq> follow h (follow h (walk h (2 * i) head))"
  using assms slow_behind [of h i head] by (simp add: passes_iff)

lemma has_cycle_at_stop:
  assumes stop: "\<not> passes h head j" and before: "\<And>i. i < j \<Longrightarrow> passes h head i"
  shows "has_cycle h head = Some (Inr (follow h (walk h (2 * j) head) \<noteq> None))"
proof -
  let ?G = "\<lambda>s f. follow h f \<noteq> None \<and> s \<noteq> None \<and> follow h s \<noteq> follow h (follow h f)"
  have "has_cycle_loop h head head =
        has_cycle_loop h (walk h j head) (walk h (2 * j) head)"
    by (rule fast_slow_iterate [where G = ?G])
       (simp_all add: has_cycle_loop_step passes_guard before)
  also have "\<dots> = Some (Inr (follow h (walk h (2 * j) head) \<noteq> None))"
  proof (cases "follow h (walk h (2 * j) head) = None")
    case True
    then show ?thesis
      by (simp add: has_cycle_loop_exit)
  next
    case False
    then have s: "walk h j head \<noteq> None"
      by (rule slow_behind)
    from False stop
    have "follow h (walk h j head) = follow h (follow h (walk h (2 * j) head))"
      by (simp add: passes_iff)
    with s False show ?thesis
      by (simp add: has_cycle_loop_meet)
  qed
  finally show ?thesis
    by (simp add: has_cycle_def)
qed

lemma detect_loop_at_stop:
  assumes stop: "\<not> passes h head j" and before: "\<And>i. i < j \<Longrightarrow> passes h head i"
  shows "detect_loop h head head =
         Some (Inr (if follow h (walk h (2 * j) head) = None then None
                    else Some (walk h (Suc j) head)))"
proof -
  let ?G = "\<lambda>s f. follow h f \<noteq> None \<and> s \<noteq> None \<and> follow h s \<noteq> follow h (follow h f)"
  have "detect_loop h head head =
        detect_loop h (walk h j head) (walk h (2 * j) head)"
    by (rule fast_slow_iterate [where G = ?G])
       (simp_all add: detect_loop_step passes_guard before)
  also have "\<dots> = Some (Inr (if follow h (walk h (2 * j) head) = None then None
                    else Some (walk h (Suc j) head)))"
  proof (cases "follow h (walk h (2 * j) head) = None")
    case True
    then show ?thesis
      by (simp add: detect_loop_exit)
  next
    case False
    then have s: "walk h j head \<noteq> None"
      by (rule slow_behind)
    from False stop
    have "follow h (walk h j head) = follow h (follow h (walk h (2 * j) head))"
      by (simp add: passes_iff)
    with s False show ?thesis
      by (simp add: detect_loop_meet)
  qed
  finally show ?thesis .
qed

text \<open>Where the cursors meet, the node is on a cycle.\<close>

lemma stop_meets:
  assumes stop: "\<not> passes h head j" and far: "follow h (walk h (2 * j) head) \<noteq> None"
  shows "\<exists>a. walk h (Suc j) head = Some a \<and> walk h (Suc j) (Some a) = Some a"
proof -
  have two: "walk h (Suc j) (walk h (Suc j) head) = walk h (Suc (Suc (2 * j))) head"
    using walk_add [of h "Suc j" "Suc j" head] by (simp only: mult_2 add_Suc add_Suc_right)
  from far have "walk h (Suc (2 * j)) head \<noteq> None"
    by simp
  then have "walk h (Suc j) head \<noteq> None"
    by (rule walk_Some_le) simp
  then obtain a where a: "walk h (Suc j) head = Some a"
    by blast
  from far stop have "walk h (Suc j) head = walk h (Suc (Suc (2 * j))) head"
    by (simp add: passes_iff)
  with two a have "walk h (Suc j) (Some a) = Some a"
    by (simp only:)
  with a show ?thesis by blast
qed

lemma stop_cyclic:
  assumes stop: "\<not> passes h head j"
  shows "(follow h (walk h (2 * j) head) \<noteq> None) = cyclic h head"
proof
  assume "follow h (walk h (2 * j) head) \<noteq> None"
  with stop obtain a
    where a: "walk h (Suc j) head = Some a" "walk h (Suc j) (Some a) = Some a"
    using stop_meets by blast
  then have "on_cycle h a"
    unfolding on_cycle_def by (intro exI [of _ "Suc j"]) simp
  with a show "cyclic h head"
    unfolding cyclic_def by blast
next
  assume "cyclic h head"
  then have "endless h head"
    by (rule cyclic_endless)
  then have "walk h (Suc (2 * j)) head \<noteq> None"
    unfolding endless_def by blast
  then show "follow h (walk h (2 * j) head) \<noteq> None"
    by simp
qed

lemma stop_exists:
  assumes fin: "finite (reach h head)"
  shows "\<exists>j. \<not> passes h head j \<and> (\<forall>i<j. passes h head i)"
proof -
  have ex: "\<exists>j. \<not> passes h head j"
  proof (cases "endless h head")
    case True
    from endless_meet [OF fin True] obtain n
      where n: "0 < n" "walk h n head = walk h (2 * n) head" by blast
    then obtain j where j: "n = Suc j"
      by (cases n) simp_all
    with n have "\<not> passes h head j"
      by (simp add: passes_def)
    then show ?thesis ..
  next
    case False
    then obtain k where "walk h k head = None"
      by (auto simp: endless_def)
    then have "walk h (2 * k + 1) head = None"
      by (rule walk_None_le) simp
    then have "\<not> passes h head k"
      by (simp only: passes_def) simp
    then show ?thesis ..
  qed
  define j where "j = (LEAST j. \<not> passes h head j)"
  have "\<not> passes h head j"
    unfolding j_def using ex by (rule LeastI_ex)
  moreover have "\<forall>i<j. passes h head i"
    unfolding j_def using not_less_Least by blast
  ultimately show ?thesis by blast
qed

lemma has_cycle_finite:
  assumes "finite (reach h head)"
  shows "has_cycle h head = Some (Inr (cyclic h head))"
proof -
  from stop_exists [OF assms] obtain j
    where j: "\<not> passes h head j" "\<And>i. i < j \<Longrightarrow> passes h head i" by blast
  then have "has_cycle h head = Some (Inr (follow h (walk h (2 * j) head) \<noteq> None))"
    by (rule has_cycle_at_stop)
  with stop_cyclic [OF j(1)] show ?thesis by simp
qed

subsection \<open>The second phase: from the meeting point to the entry\<close>

lemma cycle_entry_exists:
  assumes "cyclic h head"
  shows "\<exists>a. cycle_entry h head a"
proof -
  let ?P = "\<lambda>k. \<exists>a. walk h k head = Some a \<and> on_cycle h a"
  from assms have ex: "\<exists>k. ?P k"
    by (auto simp: cyclic_def)
  define mu where "mu = (LEAST k. ?P k)"
  have "?P mu"
    unfolding mu_def using ex by (rule LeastI_ex)
  then obtain a where a: "walk h mu head = Some a" "on_cycle h a"
    by blast
  have "\<forall>i<mu. \<not> ?P i"
    unfolding mu_def using not_less_Least by blast
  with a have "cycle_entry h head a"
    unfolding cycle_entry_def by (intro exI [of _ mu]) auto
  then show ?thesis ..
qed

lemma cycle_entry_unique:
  assumes "cycle_entry h head a" "cycle_entry h head b"
  shows "a = b"
proof -
  from assms(1) obtain k where k: "walk h k head = Some a" "on_cycle h a"
    "\<And>i c. i < k \<Longrightarrow> walk h i head = Some c \<Longrightarrow> \<not> on_cycle h c"
    unfolding cycle_entry_def by blast
  from assms(2) obtain l where l: "walk h l head = Some b" "on_cycle h b"
    "\<And>i c. i < l \<Longrightarrow> walk h i head = Some c \<Longrightarrow> \<not> on_cycle h c"
    unfolding cycle_entry_def by blast
  have "\<not> k < l" using l(3) k(1,2) by blast
  moreover have "\<not> l < k" using k(3) l(1,2) by blast
  ultimately have "k = l" by simp
  with k(1) l(1) show ?thesis by simp
qed

lemma start_loop_entry:
  assumes ent: "cycle_entry h head a"
    and meet: "walk h m head = Some c" "walk h m (Some c) = Some c" "0 < m"
  shows "start_loop h head (Some c) = Some (Inr (Some a))"
proof -
  from ent obtain mu where mu: "walk h mu head = Some a" "on_cycle h a"
    "\<And>i b. i < mu \<Longrightarrow> walk h i head = Some b \<Longrightarrow> \<not> on_cycle h b"
    unfolding cycle_entry_def by blast
  from mu(2) obtain p where p: "0 < p" "walk h p (Some a) = Some a"
    unfolding on_cycle_def by blast
  have c_cyc: "on_cycle h c"
    using meet unfolding on_cycle_def by blast
  have le: "mu \<le> m"
    using mu(3) [of m c] meet(1) c_cyc by (meson not_le_imp_less)
  \<comment> \<open>the meeting point lies \<open>m - mu\<close> links past the entry\<close>
  have a_to_c: "walk h (m - mu) (Some a) = Some c"
    using walk_add [of h mu "m - mu" head] le mu(1) meet(1) by simp
  \<comment> \<open>and the entry is reached again from the meeting point\<close>
  define d where "d = (p - 1) * (m - mu)"
  have "(m - mu) + d = p * (m - mu)"
    using p(1) by (simp add: d_def algebra_simps mult_eq_if)
  then have "walk h d (walk h (m - mu) (Some a)) = walk h (p * (m - mu)) (Some a)"
    using walk_add [of h "m - mu" d "Some a"] by simp
  also have "\<dots> = Some a"
    using p(2) by (rule walk_period)
  finally have c_to_a: "walk h d (Some c) = Some a"
    by (simp only: a_to_c)
  have "walk h m (walk h d (Some c)) = walk h d (Some c)"
    using meet(2) by (rule walk_period_shift)
  then have a_period: "walk h m (Some a) = Some a"
    by (simp only: c_to_a)
  have at_mu: "walk h mu (Some c) = Some a"
  proof -
    have "walk h mu (Some c) = walk h mu (walk h m head)"
      by (simp only: meet(1))
    also have "\<dots> = walk h m (walk h mu head)"
      by (rule walk_commute)
    also have "\<dots> = Some a"
      by (simp only: mu(1) a_period)
    finally show ?thesis .
  qed
  have before: "walk h i head \<noteq> walk h i (Some c) \<and> walk h i head \<noteq> None
      \<and> walk h i (Some c) \<noteq> None" if "i < mu" for i
  proof -
    have s: "walk h i head \<noteq> None"
    proof (rule walk_Some_le)
      show "walk h mu head \<noteq> None" using mu(1) by simp
      show "i \<le> mu" using that by simp
    qed
    have t: "walk h i (Some c) \<noteq> None"
      using on_cycle_endless [OF meet(2) meet(3)] .
    have "walk h i head \<noteq> walk h i (Some c)"
    proof
      assume eq: "walk h i head = walk h i (Some c)"
      from s obtain b where b: "walk h i head = Some b" by blast
      have "walk h m (walk h i head) = walk h i (walk h m head)"
        by (rule walk_commute)
      also have "\<dots> = walk h i head"
        by (simp only: meet(1) eq)
      finally have "walk h m (Some b) = Some b"
        by (simp only: b)
      then have "on_cycle h b"
        using meet(3) unfolding on_cycle_def by blast
      with mu(3) [OF that b] show False ..
    qed
    with s t show ?thesis by simp
  qed
  have "start_loop h head (Some c) = start_loop h (walk h mu head) (walk h mu (Some c))"
    using before by (rule start_loop_iterate)
  also have "\<dots> = Some (Inr (Some a))"
    by (simp only: mu(1) at_mu start_loop_exit)
  finally show ?thesis .
qed

lemma detect_cycle_start_finite:
  assumes fin: "finite (reach h head)"
  shows "(cyclic h head \<longrightarrow>
            (\<exists>a. cycle_entry h head a \<and> detect_cycle_start h head = Some (Inr (Some a))))
       \<and> (\<not> cyclic h head \<longrightarrow> detect_cycle_start h head = Some (Inr None))"
proof -
  from stop_exists [OF fin] obtain j
    where j: "\<not> passes h head j" "\<And>i. i < j \<Longrightarrow> passes h head i" by blast
  then have loop: "detect_loop h head head =
         Some (Inr (if follow h (walk h (2 * j) head) = None then None
                    else Some (walk h (Suc j) head)))"
    by (rule detect_loop_at_stop)
  show ?thesis
  proof (cases "cyclic h head")
    case True
    then have far: "follow h (walk h (2 * j) head) \<noteq> None"
      using stop_cyclic [OF j(1)] by simp
    with j(1) obtain c
      where c: "walk h (Suc j) head = Some c" "walk h (Suc j) (Some c) = Some c"
      using stop_meets by blast
    from True obtain a where a: "cycle_entry h head a"
      using cycle_entry_exists by blast
    have "start_loop h head (Some c) = Some (Inr (Some a))"
      using a c by (rule start_loop_entry) simp
    then have "detect_cycle_start h head = Some (Inr (Some a))"
      using far c(1) by (simp add: detect_cycle_start_def loop)
    with a True show ?thesis by blast
  next
    case False
    then have "follow h (walk h (2 * j) head) = None"
      using stop_cyclic [OF j(1)] by simp
    with False show ?thesis
      by (simp add: detect_cycle_start_def loop)
  qed
qed

subsection \<open>The middle of a list\<close>

lemma find_middle_length:
  assumes "walk h n head = None" and nodes: "\<And>i. i < n \<Longrightarrow> walk h i head \<noteq> None"
  shows "find_middle h head = Some (Inr (walk h (n div 2) head))"
proof -
  let ?j = "n div 2"
  let ?G = "\<lambda>s f. follow h f \<noteq> None \<and> s \<noteq> None"
  have go: "?G (walk h i head) (walk h (2 * i) head)" if "i < ?j" for i
  proof -
    from that have "Suc (2 * i) < n" by simp
    then have "walk h (Suc (2 * i)) head \<noteq> None"
      by (rule nodes)
    then show ?thesis
      using slow_behind [of h i head] by simp
  qed
  have "n \<le> Suc (2 * ?j)" by simp
  with assms(1) have "walk h (Suc (2 * ?j)) head = None"
    by (rule walk_None_le)
  then have stop: "follow h (walk h (2 * ?j) head) = None"
    by simp
  have "find_middle_loop h head head =
        find_middle_loop h (walk h ?j head) (walk h (2 * ?j) head)"
    by (rule fast_slow_iterate [where G = ?G]) (simp_all add: find_middle_loop_step go)
  also have "\<dots> = Some (Inr (walk h ?j head))"
    using stop by (rule find_middle_loop_exit)
  finally show ?thesis
    by (simp add: find_middle_def)
qed

lemma endless_follow:
  assumes "endless h r"
  shows "endless h (follow h r)"
  unfolding endless_def
proof
  fix k
  have "walk h (1 + k) r = walk h k (walk h 1 r)"
    by (rule walk_add)
  moreover have "walk h (1 + k) r \<noteq> None"
    using assms unfolding endless_def by blast
  ultimately show "walk h k (follow h r) \<noteq> None"
    by simp
qed

lemma find_middle_loop_endless:
  assumes "find_middle_loop h slow fast = Some y"
  shows "\<not> (endless h slow \<and> endless h fast)"
proof (rule find_middle_loop.raw_induct
    [where P = "\<lambda>h slow fast y. \<not> (endless h slow \<and> endless h fast)", OF _ assms],
    goal_cases)
  case (1 loop h slow fast y)
  show ?case
  proof
    assume e: "endless h slow \<and> endless h fast"
    then have e2: "endless h (follow h slow) \<and> endless h (follow h (follow h fast))"
      by (simp add: endless_follow)
    from e have "walk h 0 slow \<noteq> None" "walk h 1 fast \<noteq> None"
      unfolding endless_def by blast+
    then obtain s f f1 where sf: "slow = Some s" "fast = Some f" "nxt (h f) = Some f1"
      by (cases slow; cases fast) auto
    with 1(2) have "loop h (nxt (h s)) (nxt (h f1)) = Some y"
      by simp
    then have "\<not> (endless h (nxt (h s)) \<and> endless h (nxt (h f1)))"
      by (rule 1(1))
    with e2 sf show False by simp
  qed
qed

lemma find_middle_endless:
  assumes "endless h head"
  shows "find_middle h head = None"
proof (cases "find_middle h head")
  case None
  then show ?thesis .
next
  case (Some y)
  then have "\<not> (endless h head \<and> endless h head)"
    unfolding find_middle_def by (rule find_middle_loop_endless)
  with assms show ?thesis by simp
qed


subsection \<open>Results of the linked-list operations\<close>

lemma finite_node_ids: "finite (A :: node_id set)"
proof (rule finite_subset)
  show "A \<subseteq> {N1, N2, N3, N4, N5}"
  proof
    fix x assume "x \<in> A"
    show "x \<in> {N1, N2, N3, N4, N5}" by (cases x) simp_all
  qed
  show "finite {N1, N2, N3, N4, N5}" by simp
qed

lemma cycle_list_cyclic: "cyclic cycle_list (Some N1)"
proof -
  have "walk cycle_list 1 (Some N1) = Some N2" by simp
  moreover have "walk cycle_list 3 (Some N2) = Some N2"
    by (simp add: eval_nat_numeral)
  ultimately show ?thesis
    unfolding cyclic_def on_cycle_def by (metis zero_less_numeral)
qed

text \<open>
  Claim C7. On every finite linked structure \<open>has_cycle\<close> returns true exactly when some
  node reachable from \<open>head\<close> lies on a cycle of the \<open>next\<close> relation. For an absent
  head it returns false whatever the store holds: the guard fails before any link is
  read.
\<close>

theorem has_cycle_decides:
  "(finite (reach h head) \<longrightarrow> has_cycle h head = Some (Inr (cyclic h head)))
   \<and> has_cycle h None = Some (Inr False)"
proof
  show "finite (reach h head) \<longrightarrow> has_cycle h head = Some (Inr (cyclic h head))"
    by (simp add: has_cycle_finite)
  show "has_cycle h None = Some (Inr False)"
    unfolding has_cycle_def by (rule has_cycle_loop_exit) simp
qed

theorem has_cycle_decides_witness:
  "finite (reach cycle_list (Some N1))
   \<and> cyclic cycle_list (Some N1)
   \<and> has_cycle cycle_list (Some N1) = Some (Inr True)
   \<and> \<not> cyclic two_list (Some N1)
   \<and> has_cycle two_list (Some N1) = Some (Inr False)"
proof -
  have a: "has_cycle cycle_list (Some N1) = Some (Inr True)"
    unfolding has_cycle_def by (simp add: has_cycle_loop.simps [of cycle_list])
  have b: "has_cycle two_list (Some N1) = Some (Inr False)"
    unfolding has_cycle_def by (simp add: has_cycle_loop.simps [of two_list])
  show ?thesis
    using has_cycle_decides [of cycle_list "Some N1"] has_cycle_decides [of two_list "Some N1"]
      a b by (simp add: finite_node_ids)
qed

text \<open>
  Claim C8. On an acyclic list of \<open>n \<ge> 1\<close> nodes (following \<open>n\<close> links from \<open>head\<close> reaches
  the absent link, fewer do not) \<open>find_middle\<close> returns the node at 0-based index
  \<open>n div 2\<close>, the upper middle for even \<open>n\<close>. For an absent head it returns the absent
  reference.
\<close>

theorem find_middle_upper_middle:
  "(1 \<le> n \<and> walk h n head = None \<and> (\<forall>i<n. walk h i head \<noteq> None) \<longrightarrow>
      (\<exists>a. walk h (n div 2) head = Some a \<and> find_middle h head = Some (Inr (Some a))))
   \<and> find_middle h None = Some (Inr None)"
proof (intro conjI impI)
  assume n: "1 \<le> n \<and> walk h n head = None \<and> (\<forall>i<n. walk h i head \<noteq> None)"
  then have "find_middle h head = Some (Inr (walk h (n div 2) head))"
    by (intro find_middle_length) simp_all
  moreover from n have "walk h (n div 2) head \<noteq> None"
    by simp
  ultimately show "\<exists>a. walk h (n div 2) head = Some a
      \<and> find_middle h head = Some (Inr (Some a))"
    by auto
next
  show "find_middle h None = Some (Inr None)"
    unfolding find_middle_def by (rule find_middle_loop_exit) simp
qed

lemma five_list_nodes:
  "walk five_list 5 (Some N1) = None" "\<forall>i<5. walk five_list i (Some N1) \<noteq> None"
  by (simp_all add: eval_nat_numeral All_less_Suc)

lemma five_list_middle: "walk five_list (5 div 2) (Some N1) = Some N3"
proof -
  have d: "(5::nat) div 2 = Suc (Suc 0)" by simp
  show ?thesis unfolding d by simp
qed

lemma four_list_nodes:
  "walk four_list 4 (Some N1) = None" "\<forall>i<4. walk four_list i (Some N1) \<noteq> None"
  by (simp_all add: eval_nat_numeral All_less_Suc)

lemma four_list_middle: "walk four_list (4 div 2) (Some N1) = Some N3"
proof -
  have d: "(4::nat) div 2 = Suc (Suc 0)" by simp
  show ?thesis unfolding d by simp
qed

theorem find_middle_upper_middle_witness:
  "walk five_list 5 (Some N1) = None \<and> walk five_list 4 (Some N1) \<noteq> None
   \<and> find_middle five_list (Some N1) = Some (Inr (Some N3)) \<and> val (five_list N3) = 3
   \<and> walk four_list 4 (Some N1) = None \<and> walk four_list 3 (Some N1) \<noteq> None
   \<and> find_middle four_list (Some N1) = Some (Inr (Some N3)) \<and> val (four_list N3) = 3"
proof -
  have "walk five_list 4 (Some N1) \<noteq> None" "walk four_list 3 (Some N1) \<noteq> None"
    by (simp_all add: eval_nat_numeral)
  then show ?thesis
    using find_middle_upper_middle [of 5 five_list "Some N1"]
      find_middle_upper_middle [of 4 four_list "Some N1"]
      five_list_nodes four_list_nodes five_list_middle four_list_middle
    by simp
qed

text \<open>
  Claim C3. On every finite linked structure: if a cycle is reachable from \<open>head\<close>,
  \<open>detect_cycle_start\<close> returns the entry node of the cycle, the first node on the way
  from \<open>head\<close> that lies on a cycle (there is exactly one such node); if there is no
  cycle, and in particular for an absent head, it returns \<open>None\<close>.
\<close>

theorem detect_cycle_start_entry:
  "(finite (reach h head) \<longrightarrow>
      (cyclic h head \<longrightarrow>
         (\<exists>a. cycle_entry h head a \<and> (\<forall>b. cycle_entry h head b \<longrightarrow> b = a)
              \<and> detect_cycle_start h head = Some (Inr (Some a))))
      \<and> (\<not> cyclic h head \<longrightarrow> detect_cycle_start h head = Some (Inr None)))
   \<and> detect_cycle_start h None = Some (Inr None)"
proof (intro conjI impI)
  assume "finite (reach h head)" "cyclic h head"
  with detect_cycle_start_finite [of h head] obtain a
    where a: "cycle_entry h head a" "detect_cycle_start h head = Some (Inr (Some a))"
    by blast
  have "b = a" if "cycle_entry h head b" for b
    using that a(1) by (rule cycle_entry_unique)
  with a show "\<exists>a. cycle_entry h head a \<and> (\<forall>b. cycle_entry h head b \<longrightarrow> b = a)
              \<and> detect_cycle_start h head = Some (Inr (Some a))"
    by blast
next
  assume "finite (reach h head)" "\<not> cyclic h head"
  with detect_cycle_start_finite [of h head]
  show "detect_cycle_start h head = Some (Inr None)"
    by blast
next
  have "detect_loop h None None = Some (Inr None)"
    by (rule detect_loop_exit) simp
  then show "detect_cycle_start h None = Some (Inr None)"
    by (simp add: detect_cycle_start_def)
qed

lemma detect_cycle_list:
  "detect_cycle_start cycle_list (Some N1) = Some (Inr (Some N2))"
proof -
  have "detect_loop cycle_list (Some N1) (Some N1) = Some (Inr (Some (Some N4)))"
    by (simp add: detect_loop.simps [of cycle_list])
  moreover have "start_loop cycle_list (Some N1) (Some N4) = Some (Inr (Some N2))"
    by (simp add: start_loop.simps [of cycle_list])
  ultimately show ?thesis
    by (simp add: detect_cycle_start_def)
qed

lemma detect_two_list:
  "detect_cycle_start two_list (Some N1) = Some (Inr None)"
proof -
  have "detect_loop two_list (Some N1) (Some N1) = Some (Inr None)"
    by (simp add: detect_loop.simps [of two_list])
  then show ?thesis
    by (simp add: detect_cycle_start_def)
qed

theorem detect_cycle_start_entry_witness:
  "finite (reach cycle_list (Some N1)) \<and> cyclic cycle_list (Some N1)
   \<and> cycle_entry cycle_list (Some N1) N2
   \<and> detect_cycle_start cycle_list (Some N1) = Some (Inr (Some N2))
   \<and> val (cycle_list N2) = 2
   \<and> finite (reach two_list (Some N1)) \<and> \<not> cyclic two_list (Some N1)
   \<and> detect_cycle_start two_list (Some N1) = Some (Inr None)"
proof -
  have nc: "\<not> cyclic two_list (Some N1)"
  proof
    assume "cyclic two_list (Some N1)"
    then have "endless two_list (Some N1)" by (rule cyclic_endless)
    then have "walk two_list 2 (Some N1) \<noteq> None"
      unfolding endless_def by blast
    then show False by (simp add: eval_nat_numeral)
  qed
  show ?thesis
    using detect_cycle_start_entry [of cycle_list "Some N1"]
      detect_cycle_start_entry [of two_list "Some N1"]
      cycle_list_cyclic nc detect_cycle_list detect_two_list
    by (auto simp: finite_node_ids)
qed

subsection \<open>Which operations return\<close>

lemma two_sum_sorted_runs: "\<exists>r. two_sum_sorted arr target = Inr r"
proof -
  have "two_sum_sorted arr target = Inr None \<or>
     (\<exists>i j. i < j \<and> j < length arr \<and> arr ! i + arr ! j = target \<and>
          two_sum_sorted arr target = Inr (Some (arr ! i, arr ! j)))"
    unfolding two_sum_sorted_def by (rule two_sum_loop_sound) simp_all
  then show ?thesis by blast
qed

lemma detect_cycle_start_runs:
  assumes "finite (reach h head)"
  shows "\<exists>r. detect_cycle_start h head = Some (Inr r)"
  using detect_cycle_start_finite [OF assms] by (cases "cyclic h head") auto

lemma find_middle_runs:
  assumes "\<not> endless h head"
  shows "\<exists>r. find_middle h head = Some (Inr r)"
proof -
  from assms have ex: "\<exists>n. walk h n head = None"
    by (simp add: endless_def)
  define n where "n = (LEAST n. walk h n head = None)"
  have "walk h n head = None"
    unfolding n_def using ex by (rule LeastI_ex)
  moreover have "walk h i head \<noteq> None" if "i < n" for i
    using that not_less_Least unfolding n_def by blast
  ultimately have "find_middle h head = Some (Inr (walk h (n div 2) head))"
    by (rule find_middle_length)
  then show ?thesis ..
qed

lemma self_loop_endless: "endless self_loop (Some ())"
proof -
  have "walk self_loop k (Some ()) = Some ()" for k
    by (induction k) (simp_all add: self_loop_def)
  then show ?thesis
    by (simp add: endless_def)
qed

text \<open>
  Claim C2 as stated fails for \<open>find_middle\<close>: on a single node linked to itself, a finite
  structure with a cycle, the loop does not return.
\<close>

theorem find_middle_cyclic_counterexample:
  "finite (reach self_loop (Some ())) \<and> find_middle self_loop (Some ()) = None"
  using find_middle_endless [OF self_loop_endless] by simp

text \<open>
  Claim C2 (as amended). The array and string operations return a value on every input,
  raising no exception: their loops are defined by well-founded recursion and every read
  stays inside the list (\<open>merge_sorted_arrays\<close> has no failing read at all). On every
  finite linked structure, cyclic or not, \<open>has_cycle\<close> and \<open>detect_cycle_start\<close> return.
  \<open>find_middle\<close> returns when no cycle is reachable from \<open>head\<close>, and does not return when
  one is.
\<close>

theorem operations_terminate:
  "(\<exists>r. two_sum_sorted arr target = Inr r)
   \<and> (\<exists>r. remove_duplicates arr = Inr r)
   \<and> (\<exists>r. reverse_string s = Inr r)
   \<and> (\<exists>r. max_area height = Inr r)
   \<and> (\<exists>r. length_of_longest_substring s = Inr r)
   \<and> (finite (reach h head) \<longrightarrow>
        (\<exists>r. has_cycle h head = Some (Inr r))
        \<and> (\<exists>r. detect_cycle_start h head = Some (Inr r))
        \<and> (\<not> cyclic h head \<longrightarrow> (\<exists>r. find_middle h head = Some (Inr r)))
        \<and> (cyclic h head \<longrightarrow> find_middle h head = None))"
proof (intro conjI impI)
  show "\<exists>r. two_sum_sorted arr target = Inr r"
    by (rule two_sum_sorted_runs)
  show "\<exists>r. remove_duplicates arr = Inr r"
    using remove_duplicates_runs [of arr] by blast
  show "\<exists>r. reverse_string s = Inr r"
    by (rule reverse_string_runs)
  show "\<exists>r. max_area height = Inr r"
    by (rule max_area_runs)
  show "\<exists>r. length_of_longest_substring s = Inr r"
    using longest_runs [of s] by blast
next
  assume fin: "finite (reach h head)"
  then show "\<exists>r. has_cycle h head = Some (Inr r)"
    by (simp add: has_cycle_finite)
  from fin show "\<exists>r. detect_cycle_start h head = Some (Inr r)"
    by (rule detect_cycle_start_runs)
  show "\<exists>r. find_middle h head = Some (Inr r)" if "\<not> cyclic h head"
    using that fin endless_cyclic find_middle_runs by blast
  show "find_middle h head = None" if "cyclic h head"
    using that cyclic_endless find_middle_endless by blast
qed

lemma two_list_acyclic: "\<not> cyclic two_list (Some N1)"
proof
  assume "cyclic two_list (Some N1)"
  then have "endless two_list (Some N1)" by (rule cyclic_endless)
  then have "walk two_list 2 (Some N1) \<noteq> None"
    unfolding endless_def by blast
  then show False by (simp add: eval_nat_numeral)
qed

theorem operations_terminate_witness:
  "finite (reach cycle_list (Some N1)) \<and> cyclic cycle_list (Some N1)
   \<and> has_cycle cycle_list (Some N1) = Some (Inr True)
   \<and> detect_cycle_start cycle_list (Some N1) = Some (Inr (Some N2))
   \<and> find_middle cycle_list (Some N1) = None
   \<and> finite (reach two_list (Some N1)) \<and> \<not> cyclic two_list (Some N1)
   \<and> has_cycle two_list (Some N1) = Some (Inr False)
   \<and> detect_cycle_start two_list (Some N1) = Some (Inr None)
   \<and> find_middle two_list (Some N1) = Some (Inr (Some N2))
   \<and> reverse_string ''hello'' = Inr ''olleh''
   \<and> max_area [1, 8, 6, 2, 5, 4, 8, 3, 7] = Inr 49"
proof -
  have a: "has_cycle cycle_list (Some N1) = Some (Inr True)"
    unfolding has_cycle_def by (simp add: has_cycle_loop.simps [of cycle_list])
  have b: "has_cycle two_list (Some N1) = Some (Inr False)"
    unfolding has_cycle_def by (simp add: has_cycle_loop.simps [of two_list])
  have c: "find_middle two_list (Some N1) = Some (Inr (Some N2))"
    unfolding find_middle_def by (simp add: find_middle_loop.simps [of two_list])
  have d: "reverse_string ''hello'' = Inr ''olleh''"
    by (simp add: reverse_string_def reverse_loop.simps py_index_def py_store_def)
  have e: "max_area [1, 8, 6, 2, 5, 4, 8, 3, 7] = Inr 49"
    by (simp add: max_area_def max_area_loop.simps py_index_def Let_def)
  have "find_middle cycle_list (Some N1) = None"
    using operations_terminate
      [where h = cycle_list and head = "Some N1" and arr = "[1, 2, 3]" and target = 7
         and s = "''hello''" and height = "[1, 1]"]
      cycle_list_cyclic
    by (simp add: finite_node_ids)
  then show ?thesis
    using a b c d e cycle_list_cyclic two_list_acyclic detect_cycle_list detect_two_list
    by (simp add: finite_node_ids)
qed

end
